theory Spec2Isabelle
  imports Main "HOL-Library.Word"
begin

unbundle bit_operations_syntax

section \<open>The texture memory allocator of allocator.c\<close>

text \<open>
  The allocator keeps all of its state in file-level statics: a pool of
  \<open>TM_MAX_BLOCKS\<close> block descriptors, two singly linked lists threaded
  through that pool (free blocks, allocated blocks) and a byte counter.
  The model keeps the same shape.  A pointer into the pool is an index,
  \<open>NULL\<close> is \<open>None\<close>.  The target is the 32-bit ARM of the PS Vita, so
  \<open>uintptr_t\<close> and \<open>uint32_t\<close> are both 32-bit words and every sum and
  difference wraps.  A \<open>void *\<close> handed to or from the caller is the
  32-bit address, with \<open>0\<close> for \<open>NULL\<close>.  The pool is a function from slot numbers
  to descriptors; the code never touches a slot from \<open>TM_MAX_BLOCKS\<close> on.

  Loops over a linked list follow pointers and need not end on a cyclic
  list, so they are partial functions into \<open>option\<close>: \<open>None\<close> stands for
  a call that does not return (or that dereferences \<open>NULL\<close>).
\<close>

subsection \<open>Constants and data\<close>

type_synonym u32 = "32 word"
type_synonym blkptr = "nat option"

definition TM_MAX_BLOCKS :: nat where
  "TM_MAX_BLOCKS = 2048"

definition TM_ALIGNMENT :: u32 where
  "TM_ALIGNMENT = 8"

definition TM_TYPE_VRAM :: int where
  "TM_TYPE_VRAM = 1"

definition TM_TYPE_RAM :: int where
  "TM_TYPE_RAM = 2"

text \<open>
  Modelled from the spec: the macro \<open>ALIGN\<close> lives in gpu_utils.h, which is
  not among the sources.  The spec describes its use as rounding the
  candidate's base up to the alignment; this is the customary C idiom for
  that, on 32-bit values, for an alignment that is a power of two.
\<close>

definition ALIGN :: "u32 \<Rightarrow> u32 \<Rightarrow> u32" where
  "ALIGN x a = (x + (a - 1)) AND NOT (a - 1)"

text \<open>\<open>struct tm_block_s\<close>; the fields carry a prefix because \<open>next\<close> and
  \<open>size\<close> are taken.\<close>

record tm_block =
  blk_next :: blkptr
  blk_type :: int
  blk_base :: u32
  blk_offset :: u32
  blk_size :: u32

text \<open>The statics of allocator.c.\<close>

record tm_state =
  tm_main :: u32
  tm_main_uid :: int
  tm_main_size :: u32
  tm_main_type :: int
  tm_sub_type :: int
  tm_used :: u32
  tm_blockpool :: "nat \<Rightarrow> tm_block"
  tm_blocknum :: int
  tm_alloclist :: blkptr
  tm_freelist :: blkptr

text \<open>Only \<open>SCE_KERNEL_MEMBLOCK_TYPE_USER_CDRAM_RW\<close> is told apart by the code.\<close>

datatype SceKernelMemBlockType =
  SCE_KERNEL_MEMBLOCK_TYPE_USER_CDRAM_RW
  | SCE_KERNEL_MEMBLOCK_TYPE_USER_RW
  | SCE_KERNEL_MEMBLOCK_TYPE_USER_RW_UNCACHE

text \<open>Reading and writing one descriptor, \<open>p->f\<close> and \<open>p->f = v\<close>.\<close>

abbreviation blk :: "tm_state \<Rightarrow> nat \<Rightarrow> tm_block" where
  "blk s i \<equiv> tm_blockpool s i"

definition blk_upd :: "nat \<Rightarrow> (tm_block \<Rightarrow> tm_block) \<Rightarrow> tm_state \<Rightarrow> tm_state" where
  "blk_upd i f s = s\<lparr>tm_blockpool := (tm_blockpool s)(i := f (tm_blockpool s i))\<rparr>"

definition set_next :: "nat \<Rightarrow> blkptr \<Rightarrow> tm_state \<Rightarrow> tm_state" where
  "set_next i p = blk_upd i (\<lambda>b. b\<lparr>blk_next := p\<rparr>)"

definition set_type :: "nat \<Rightarrow> int \<Rightarrow> tm_state \<Rightarrow> tm_state" where
  "set_type i t = blk_upd i (\<lambda>b. b\<lparr>blk_type := t\<rparr>)"

definition set_base :: "nat \<Rightarrow> u32 \<Rightarrow> tm_state \<Rightarrow> tm_state" where
  "set_base i v = blk_upd i (\<lambda>b. b\<lparr>blk_base := v\<rparr>)"

definition set_offset :: "nat \<Rightarrow> u32 \<Rightarrow> tm_state \<Rightarrow> tm_state" where
  "set_offset i v = blk_upd i (\<lambda>b. b\<lparr>blk_offset := v\<rparr>)"

definition set_size :: "nat \<Rightarrow> u32 \<Rightarrow> tm_state \<Rightarrow> tm_state" where
  "set_size i v = blk_upd i (\<lambda>b. b\<lparr>blk_size := v\<rparr>)"

subsection \<open>Block pool\<close>

text \<open>\<open>heap_blk_new\<close>: the first slot whose type is \<open>-1\<close> is marked \<open>0\<close> and
  returned; \<open>NULL\<close> when the loop runs off the pool.\<close>

function heap_blk_new_from :: "nat \<Rightarrow> tm_state \<Rightarrow> blkptr \<times> tm_state" where
  "heap_blk_new_from i s =
     (if i < TM_MAX_BLOCKS then
        (if blk_type (blk s i) = -1
         then (Some i, (set_type i 0 s)\<lparr>tm_blocknum := tm_blocknum s + 1\<rparr>)
         else heap_blk_new_from (Suc i) s)
      else (None, s))"
  by pat_completeness auto
termination
  by (relation "measure (\<lambda>(i, s). TM_MAX_BLOCKS - i)") auto

declare heap_blk_new_from.simps [simp del]

definition heap_blk_new :: "tm_state \<Rightarrow> blkptr \<times> tm_state" where
  "heap_blk_new s = heap_blk_new_from 0 s"

definition heap_blk_release :: "nat \<Rightarrow> tm_state \<Rightarrow> tm_state" where
  "heap_blk_release block s = (set_type block (-1) s)\<lparr>tm_blocknum := tm_blocknum s - 1\<rparr>"

definition heap_blk_mergeable :: "tm_block \<Rightarrow> tm_block \<Rightarrow> bool" where
  "heap_blk_mergeable a b \<longleftrightarrow>
     blk_type a = blk_type b
     \<and> blk_base a + blk_size a = blk_base b
     \<and> blk_offset a + blk_size a = blk_offset b"

subsection \<open>Free list insertion\<close>

text \<open>The \<open>while\<close> loop of \<open>heap_blk_insert_free\<close>: it leaves \<open>prev\<close> and \<open>curr\<close>
  around the place where \<open>block\<close> belongs.\<close>

partial_function (option) insert_free_scan ::
  "tm_state \<Rightarrow> nat \<Rightarrow> blkptr \<Rightarrow> blkptr \<Rightarrow> (blkptr \<times> blkptr) option" where
  "insert_free_scan s block prev cur =
     (case cur of
        None \<Rightarrow> Some (prev, cur)
      | Some c \<Rightarrow>
          if blk_base (blk s c) < blk_base (blk s block)
          then insert_free_scan s block (Some c) (blk_next (blk s c))
          else Some (prev, cur))"

text \<open>The three straight-line parts that follow the loop.\<close>

definition insert_link :: "nat \<Rightarrow> blkptr \<Rightarrow> blkptr \<Rightarrow> tm_state \<Rightarrow> tm_state" where
  "insert_link block prev cur s =
     set_next block cur
       (case prev of
          Some p \<Rightarrow> set_next p (Some block) s
        | None \<Rightarrow> s\<lparr>tm_freelist := Some block\<rparr>)"

definition merge_curr :: "nat \<Rightarrow> blkptr \<Rightarrow> tm_state \<Rightarrow> tm_state" where
  "merge_curr block cur s =
     (case cur of
        None \<Rightarrow> s
      | Some c \<Rightarrow>
          if heap_blk_mergeable (blk s block) (blk s c)
          then
            (let s1 = set_size block (blk_size (blk s block) + blk_size (blk s c)) s;
                 s2 = set_next block (blk_next (blk s1 c)) s1
             in heap_blk_release c s2)
          else s)"

definition merge_prev :: "nat \<Rightarrow> blkptr \<Rightarrow> tm_state \<Rightarrow> tm_state" where
  "merge_prev block prev s =
     (case prev of
        None \<Rightarrow> s
      | Some p \<Rightarrow>
          if heap_blk_mergeable (blk s p) (blk s block)
          then
            (let s1 = set_size p (blk_size (blk s p) + blk_size (blk s block)) s;
                 s2 = set_next p (blk_next (blk s1 block)) s1
             in heap_blk_release block s2)
          else s)"

definition heap_blk_insert_free :: "nat \<Rightarrow> tm_state \<Rightarrow> tm_state option" where
  "heap_blk_insert_free block s =
     (case insert_free_scan s block None (tm_freelist s) of
        None \<Rightarrow> None
      | Some (prev, cur) \<Rightarrow>
          Some (merge_prev block prev (merge_curr block cur (insert_link block prev cur s))))"

subsection \<open>Allocation engine\<close>

text \<open>The body of the \<open>if\<close> in \<open>heap_blk_alloc\<close>, once \<open>curr\<close> is accepted.
  First the descriptors, lines 102 to 118.  The result is \<open>None\<close> when the
  function has to give up, otherwise the two descriptors.\<close>

definition take_descriptors ::
  "tm_state \<Rightarrow> u32 \<Rightarrow> u32 \<Rightarrow> nat \<Rightarrow> (blkptr \<times> blkptr) option \<times> tm_state" where
  "take_descriptors s sz skip cur =
     (let (skipBlock, s1) = (if skip \<noteq> 0 then heap_blk_new s else (None, s))
      in if skip \<noteq> 0 \<and> skipBlock = None then (None, s1)
         else
           (let (unusedBlock, s2) =
                  (if skip + sz \<noteq> blk_size (blk s1 cur) then heap_blk_new s1 else (None, s1))
            in if skip + sz \<noteq> blk_size (blk s1 cur) \<and> unusedBlock = None
               then (None, (case skipBlock of Some k \<Rightarrow> heap_blk_release k s2 | None \<Rightarrow> s2))
               else (Some (skipBlock, unusedBlock), s2)))"

text \<open>Lines 120 to 141: the block for the skipped bytes.  It returns the new
  \<open>prev\<close> with the state.  \<open>skipBlock\<close> is dereferenced, so \<open>NULL\<close> there ends
  the run.\<close>

definition carve_skip ::
  "u32 \<Rightarrow> blkptr \<Rightarrow> blkptr \<Rightarrow> nat \<Rightarrow> tm_state \<Rightarrow> (blkptr \<times> tm_state) option" where
  "carve_skip skip skipBlock prev cur s =
     (if skip \<noteq> 0 then
        (case skipBlock of
           None \<Rightarrow> None
         | Some k \<Rightarrow>
             (let s1 = (case prev of
                          Some p \<Rightarrow> set_next p (Some k) s
                        | None \<Rightarrow> s\<lparr>tm_freelist := Some k\<rparr>);
                  s2 = set_next k (Some cur) s1;
                  s3 = set_type k (blk_type (blk s2 cur)) s2;
                  s4 = set_base k (blk_base (blk s3 cur)) s3;
                  s5 = set_offset k (blk_offset (blk s4 cur)) s4;
                  s6 = set_size k skip s5;
                  s7 = set_base cur (blk_base (blk s6 cur) + skip) s6;
                  s8 = set_offset cur (blk_offset (blk s7 cur) + skip) s7;
                  s9 = set_size cur (blk_size (blk s8 cur) - skip) s8
              in Some (Some k, s9)))
      else Some (prev, s))"

text \<open>Lines 143 to 155: the block for the bytes behind the request.\<close>

definition carve_unused ::
  "u32 \<Rightarrow> blkptr \<Rightarrow> nat \<Rightarrow> tm_state \<Rightarrow> tm_state option" where
  "carve_unused sz unusedBlock cur s =
     (if sz \<noteq> blk_size (blk s cur) then
        (case unusedBlock of
           None \<Rightarrow> None
         | Some u \<Rightarrow>
             (let s1 = set_next u (blk_next (blk s cur)) s;
                  s2 = set_next cur (Some u) s1;
                  s3 = set_type u (blk_type (blk s2 cur)) s2;
                  s4 = set_base u (blk_base (blk s3 cur) + sz) s3;
                  s5 = set_offset u (blk_offset (blk s4 cur) + sz) s4;
                  s6 = set_size u (blk_size (blk s5 cur) - sz) s5;
                  s7 = set_size cur sz s6
              in Some s7))
      else Some s)"

text \<open>Lines 157 to 168: off the free list, onto the allocated list.\<close>

definition unlink_push :: "blkptr \<Rightarrow> nat \<Rightarrow> tm_state \<Rightarrow> tm_state" where
  "unlink_push prev cur s =
     (let s1 = (case prev of
                  Some p \<Rightarrow> set_next p (blk_next (blk s cur)) s
                | None \<Rightarrow> s\<lparr>tm_freelist := blk_next (blk s cur)\<rparr>);
          s2 = set_next cur (tm_alloclist s1) s1;
          s3 = s2\<lparr>tm_alloclist := Some cur\<rparr>
      in s3\<lparr>tm_used := tm_used s3 + blk_size (blk s3 cur)\<rparr>)"

definition heap_blk_take ::
  "tm_state \<Rightarrow> u32 \<Rightarrow> u32 \<Rightarrow> blkptr \<Rightarrow> nat \<Rightarrow> (blkptr \<times> tm_state) option" where
  "heap_blk_take s sz skip prev cur =
     (case take_descriptors s sz skip cur of
        (None, s') \<Rightarrow> Some (None, s')
      | (Some (skipBlock, unusedBlock), s1) \<Rightarrow>
          (case carve_skip skip skipBlock prev cur s1 of
             None \<Rightarrow> None
           | Some (prev', s2) \<Rightarrow>
               (case carve_unused sz unusedBlock cur s2 of
                  None \<Rightarrow> None
                | Some s3 \<Rightarrow> Some (Some cur, unlink_push prev' cur s3))))"

text \<open>The test of line 100, with the \<open>skip\<close> of line 99; both sums are
  \<open>uint32_t\<close> sums.\<close>

definition blk_skip :: "tm_block \<Rightarrow> u32 \<Rightarrow> u32" where
  "blk_skip b alignment = ALIGN (blk_base b) alignment - blk_base b"

definition blk_fits :: "int \<Rightarrow> u32 \<Rightarrow> u32 \<Rightarrow> tm_block \<Rightarrow> bool" where
  "blk_fits ty sz alignment b \<longleftrightarrow>
     blk_type b = ty \<and> blk_skip b alignment + sz \<le> blk_size b"

partial_function (option) heap_blk_alloc_scan ::
  "tm_state \<Rightarrow> int \<Rightarrow> u32 \<Rightarrow> u32 \<Rightarrow> blkptr \<Rightarrow> blkptr \<Rightarrow> (blkptr \<times> tm_state) option" where
  "heap_blk_alloc_scan s ty sz alignment prev cur =
     (case cur of
        None \<Rightarrow> Some (None, s)
      | Some c \<Rightarrow>
          if blk_fits ty sz alignment (blk s c)
          then heap_blk_take s sz (blk_skip (blk s c) alignment) prev c
          else heap_blk_alloc_scan s ty sz alignment (Some c) (blk_next (blk s c)))"

definition heap_blk_alloc :: "tm_state \<Rightarrow> int \<Rightarrow> u32 \<Rightarrow> u32 \<Rightarrow> (blkptr \<times> tm_state) option" where
  "heap_blk_alloc s ty sz alignment =
     heap_blk_alloc_scan s ty sz alignment None (tm_freelist s)"

subsection \<open>Release\<close>

partial_function (option) free_scan ::
  "tm_state \<Rightarrow> u32 \<Rightarrow> blkptr \<Rightarrow> blkptr \<Rightarrow> (blkptr \<times> blkptr) option" where
  "free_scan s base prev cur =
     (case cur of
        None \<Rightarrow> Some (prev, cur)
      | Some c \<Rightarrow>
          if blk_base (blk s c) \<noteq> base
          then free_scan s base (Some c) (blk_next (blk s c))
          else Some (prev, cur))"

definition free_unlink :: "blkptr \<Rightarrow> nat \<Rightarrow> tm_state \<Rightarrow> tm_state" where
  "free_unlink prev cur s =
     (let s1 = (case prev of
                  Some p \<Rightarrow> set_next p (blk_next (blk s cur)) s
                | None \<Rightarrow> s\<lparr>tm_alloclist := blk_next (blk s cur)\<rparr>);
          s2 = set_next cur None s1
      in s2\<lparr>tm_used := tm_used s2 - blk_size (blk s2 cur)\<rparr>)"

definition heap_blk_free :: "u32 \<Rightarrow> tm_state \<Rightarrow> tm_state option" where
  "heap_blk_free base s =
     (case free_scan s base None (tm_alloclist s) of
        None \<Rightarrow> None
      | Some (prev, None) \<Rightarrow> Some s
      | Some (prev, Some c) \<Rightarrow> heap_blk_insert_free c (free_unlink prev c s))"

subsection \<open>Heap set-up and the public functions\<close>

definition heap_init :: "tm_state \<Rightarrow> tm_state" where
  "heap_init s =
     s\<lparr>tm_alloclist := None, tm_freelist := None, tm_used := 0,
       tm_blockpool := (\<lambda>i. if i < TM_MAX_BLOCKS
                             then (tm_blockpool s i)\<lparr>blk_type := -1\<rparr>
                             else tm_blockpool s i)\<rparr>"

definition heap_destroy :: "tm_state \<Rightarrow> tm_state" where
  "heap_destroy s = s\<lparr>tm_used := 0\<rparr>"

text \<open>\<open>heap_extend\<close> uses the result of \<open>heap_blk_new\<close> unchecked.\<close>

definition heap_extend :: "int \<Rightarrow> u32 \<Rightarrow> u32 \<Rightarrow> tm_state \<Rightarrow> tm_state option" where
  "heap_extend ty base sz s =
     (case heap_blk_new s of
        (None, s') \<Rightarrow> None
      | (Some b, s1) \<Rightarrow>
          heap_blk_insert_free b
            (set_size b sz (set_offset b 0 (set_base b base (set_type b ty (set_next b None s1))))))"

definition heap_alloc :: "tm_state \<Rightarrow> int \<Rightarrow> u32 \<Rightarrow> u32 \<Rightarrow> (u32 \<times> tm_state) option" where
  "heap_alloc s ty sz alignment =
     (case heap_blk_alloc s ty sz alignment of
        None \<Rightarrow> None
      | Some (None, s') \<Rightarrow> Some (0, s')
      | Some (Some b, s') \<Rightarrow> Some (blk_base (blk s' b), s'))"

definition heap_free :: "u32 \<Rightarrow> tm_state \<Rightarrow> tm_state option" where
  "heap_free addr s = heap_blk_free addr s"

text \<open>\<open>texmem_init\<close>.  The call of \<open>gpu_alloc_map\<close> is the environment's: its
  result, the mapped address (\<open>0\<close> when the mapping fails) and the handle,
  is an argument here.  The function has no \<open>return\<close> statement, so all it
  hands back is the state; a failed \<open>assert\<close> ends the program (assertions are taken
  to be compiled in).\<close>

datatype init_stop = AssertionFailed | NullDereference

definition texmem_init ::
  "SceKernelMemBlockType \<Rightarrow> u32 \<Rightarrow> u32 \<times> int \<Rightarrow> tm_state \<Rightarrow> init_stop + tm_state" where
  "texmem_init maintype mainsize mapped s =
     (let s1 = s\<lparr>tm_main := fst mapped, tm_main_uid := snd mapped\<rparr>
      in if tm_main s1 = 0 then Inl AssertionFailed
         else
           (let s2 = s1\<lparr>tm_main_size := mainsize,
                        tm_main_type := (if maintype = SCE_KERNEL_MEMBLOCK_TYPE_USER_CDRAM_RW
                                         then TM_TYPE_VRAM else TM_TYPE_RAM),
                        tm_sub_type := (if maintype = SCE_KERNEL_MEMBLOCK_TYPE_USER_CDRAM_RW
                                        then TM_TYPE_RAM else TM_TYPE_VRAM)\<rparr>;
                s3 = heap_init s2
            in case heap_extend (tm_main_type s3) (tm_main s3) (tm_main_size s3) s3 of
                 None \<Rightarrow> Inl NullDereference
               | Some s4 \<Rightarrow> Inr s4))"

text \<open>\<open>texmem_destroy\<close>; the call of \<open>gpu_unmap_free\<close> is the environment's.\<close>

definition texmem_destroy :: "tm_state \<Rightarrow> tm_state" where
  "texmem_destroy s =
     (heap_destroy s)\<lparr>tm_main := 0, tm_main_uid := 0, tm_main_size := 0, tm_main_type := 0\<rparr>"

definition texmem_alloc :: "u32 \<Rightarrow> tm_state \<Rightarrow> (u32 \<times> tm_state) option" where
  "texmem_alloc sz s =
     (if sz = 0 then Some (0, s)
      else heap_alloc s (tm_main_type s) (if sz < TM_ALIGNMENT then TM_ALIGNMENT else sz)
             TM_ALIGNMENT)"

definition texmem_free :: "u32 \<Rightarrow> tm_state \<Rightarrow> tm_state option" where
  "texmem_free ptr s = (if ptr = 0 then Some s else heap_free ptr s)"

definition texmem_memused :: "tm_state \<Rightarrow> u32" where
  "texmem_memused s = tm_used s"

section \<open>Vocabulary of the proofs\<close>

text \<open>\<open>path pool p xs q\<close>: following \<open>next\<close> from the pointer \<open>p\<close> visits the
  descriptors \<open>xs\<close>, in this order, and arrives at \<open>q\<close>.  A list of the program is a
  path from its head to \<open>NULL\<close>.\<close>

fun path :: "(nat \<Rightarrow> tm_block) \<Rightarrow> blkptr \<Rightarrow> nat list \<Rightarrow> blkptr \<Rightarrow> bool" where
  "path pool p [] q \<longleftrightarrow> p = q"
| "path pool p (x # xs) q \<longleftrightarrow> p = Some x \<and> path pool (blk_next (pool x)) xs q"

text \<open>The pointer to the first descriptor of a path, and the \<open>prev\<close> a walk holds after
  it has passed the descriptors \<open>xs\<close>.\<close>

definition ptr_of :: "nat list \<Rightarrow> blkptr" where
  "ptr_of xs = (case xs of [] \<Rightarrow> None | x # _ \<Rightarrow> Some x)"

definition last_ptr :: "blkptr \<Rightarrow> nat list \<Rightarrow> blkptr" where
  "last_ptr p xs = (if xs = [] then p else Some (last xs))"

text \<open>The slots \<open>heap_blk_new\<close> can hand out.\<close>

definition free_slots :: "tm_state \<Rightarrow> nat set" where
  "free_slots s = {i. i < TM_MAX_BLOCKS \<and> blk_type (blk s i) = -1}"

text \<open>The descriptors the split of a block needs, lines 104 and 110: one when there is a
  skip, one when skip and request do not use up the block.\<close>

definition slots_needed :: "u32 \<Rightarrow> u32 \<Rightarrow> tm_block \<Rightarrow> nat" where
  "slots_needed sz skip b =
     (if skip \<noteq> 0 then 1 else 0) + (if skip + sz \<noteq> blk_size b then 1 else 0)"

text \<open>Two states that differ in the pool and the slot count at most.\<close>

definition same_but_pool :: "tm_state \<Rightarrow> tm_state \<Rightarrow> bool" where
  "same_but_pool s s' \<longleftrightarrow>
     tm_freelist s' = tm_freelist s \<and> tm_alloclist s' = tm_alloclist s
     \<and> tm_used s' = tm_used s \<and> tm_main_type s' = tm_main_type s
     \<and> tm_main s' = tm_main s \<and> tm_main_size s' = tm_main_size s
     \<and> tm_sub_type s' = tm_sub_type s \<and> tm_main_uid s' = tm_main_uid s"

text \<open>The shape of the two lists: each is a path to \<open>NULL\<close> (\<open>fs\<close> the descriptors of the
  free list, \<open>as\<close> those of the allocated list), no descriptor is on both, and none of
  them is marked unused.\<close>

definition lists_ok :: "tm_state \<Rightarrow> nat list \<Rightarrow> nat list \<Rightarrow> bool" where
  "lists_ok s fs as \<longleftrightarrow>
     path (tm_blockpool s) (tm_freelist s) fs None
     \<and> path (tm_blockpool s) (tm_alloclist s) as None
     \<and> set fs \<inter> set as = {}
     \<and> (\<forall>i\<in>set fs \<union> set as. blk_type (blk s i) \<noteq> -1)"

text \<open>The descriptor \<open>heap_extend\<close> writes for a whole region, and the type \<open>texmem_init\<close>
  gives the main region.\<close>

definition region_block :: "int \<Rightarrow> u32 \<Rightarrow> u32 \<Rightarrow> tm_block" where
  "region_block ty base sz =
     \<lparr>blk_next = None, blk_type = ty, blk_base = base, blk_offset = 0, blk_size = sz\<rparr>"

definition main_type_of :: "SceKernelMemBlockType \<Rightarrow> int" where
  "main_type_of mt = (if mt = SCE_KERNEL_MEMBLOCK_TYPE_USER_CDRAM_RW then TM_TYPE_VRAM else TM_TYPE_RAM)"

text \<open>The states of a program that calls \<open>texmem_init\<close> and then \<open>texmem_alloc\<close> and
  \<open>texmem_free\<close> in any order, with any arguments.\<close>

inductive reachable :: "tm_state \<Rightarrow> bool" where
  init: "texmem_init mt msz mapped s0 = Inr s \<Longrightarrow> reachable s"
| alloc: "reachable s \<Longrightarrow> texmem_alloc sz s = Some (a, s') \<Longrightarrow> reachable s'"
| free: "reachable s \<Longrightarrow> texmem_free p s = Some s' \<Longrightarrow> reachable s'"

text \<open>What every such state satisfies.\<close>

definition heap_inv :: "tm_state \<Rightarrow> bool" where
  "heap_inv s \<longleftrightarrow>
     (\<exists>fs as. lists_ok s fs as \<and> tm_used s = sum_list (map (\<lambda>i. blk_size (blk s i)) as))
     \<and> (tm_main_type s = TM_TYPE_VRAM \<or> tm_main_type s = TM_TYPE_RAM)"

text \<open>Concrete states.  \<open>boot_state\<close> is the program before \<open>texmem_init\<close>: statics are
  zero.  \<open>demo_state\<close> is a state of a heap of 1024 bytes of VRAM mapped at \<open>0x1000\<close>,
  given by the descriptors of the first slots of the pool; the slots behind them are
  unused.\<close>

definition mk_blk :: "blkptr \<Rightarrow> int \<Rightarrow> u32 \<Rightarrow> u32 \<Rightarrow> u32 \<Rightarrow> tm_block" where
  "mk_blk nx ty base off sz =
     \<lparr>blk_next = nx, blk_type = ty, blk_base = base, blk_offset = off, blk_size = sz\<rparr>"

definition demo_pool :: "tm_block list \<Rightarrow> nat \<Rightarrow> tm_block" where
  "demo_pool bs i =
     (if i < length bs then bs ! i
      else if i < TM_MAX_BLOCKS then mk_blk None (-1) 0 0 0
      else mk_blk None 0 0 0 0)"

definition boot_state :: tm_state where
  "boot_state =
     \<lparr>tm_main = 0, tm_main_uid = 0, tm_main_size = 0, tm_main_type = 0, tm_sub_type = 0,
      tm_used = 0, tm_blockpool = (\<lambda>i. mk_blk None 0 0 0 0), tm_blocknum = 0,
      tm_alloclist = None, tm_freelist = None\<rparr>"

definition demo_state :: "u32 \<Rightarrow> int \<Rightarrow> blkptr \<Rightarrow> blkptr \<Rightarrow> tm_block list \<Rightarrow> tm_state" where
  "demo_state used n fl al bs =
     \<lparr>tm_main = 0x1000, tm_main_uid = 7, tm_main_size = 1024, tm_main_type = 1, tm_sub_type = 2,
      tm_used = used, tm_blockpool = demo_pool bs, tm_blocknum = n,
      tm_alloclist = al, tm_freelist = fl\<rparr>"

text \<open>A state with every descriptor in use: 2047 blocks of 8 bytes on the allocated list
  and the rest of a region of 64 KiB as the one free block.\<close>

definition full_pool :: "nat \<Rightarrow> tm_block" where
  "full_pool i =
     (if i < 2047
      then mk_blk (if i = 0 then None else Some (i - 1)) 1 (0x1000 + 8 * of_nat i) (8 * of_nat i) 8
      else if i = 2047 then mk_blk None 1 0x4FF8 16376 49160
      else mk_blk None 0 0 0 0)"

definition full_state :: tm_state where
  "full_state =
     \<lparr>tm_main = 0x1000, tm_main_uid = 7, tm_main_size = 65536, tm_main_type = 1, tm_sub_type = 2,
      tm_used = 16376, tm_blockpool = full_pool, tm_blocknum = 2048,
      tm_alloclist = Some 2046, tm_freelist = Some 2047\<rparr>"

text \<open>A region of 1024 bytes of VRAM mapped at \<open>0x1000\<close>, and the states a few call
  sequences lead to.\<close>

definition st_init :: tm_state where
  "st_init = demo_state 0 1 (Some 0) None [mk_blk None 1 0x1000 0 1024]"

definition st_a :: tm_state where
  "st_a =
     demo_state 9 2 (Some 1) (Some 0)
       [mk_blk None 1 0x1000 0 9,
        mk_blk None 1 0x1009 9 1015]"

definition st_b :: tm_state where
  "st_b =
     demo_state 8 4 (Some 2) (Some 1)
       [mk_blk None 1 0x1000 0 9,
        mk_blk (Some 0) 1 0x1010 16 0xFFFFFFFF,
        mk_blk (Some 3) 1 0x1009 9 7,
        mk_blk None 1 0x100F 15 1009]"

definition st_c :: tm_state where
  "st_c =
     demo_state 0xFFFFFFFF 3 (Some 0) (Some 1)
       [mk_blk (Some 3) 1 0x1000 0 16,
        mk_blk None 1 0x1010 16 0xFFFFFFFF,
        mk_blk (Some 3) (-1) 0x1009 9 7,
        mk_blk None 1 0x100F 15 1009]"

definition st_d :: tm_state where
  "st_d =
     demo_state 0 3 (Some 0) None
       [mk_blk (Some 3) 1 0x1000 0 16,
        mk_blk None 1 0x1010 16 0xFFFFFFFF,
        mk_blk (Some 3) (-1) 0x1009 9 7,
        mk_blk (Some 1) 1 0x100F 15 1009]"

definition st_e :: tm_state where
  "st_e =
     demo_state 2 4 (Some 2) (Some 1)
       [mk_blk None 1 0x1000 0 9,
        mk_blk (Some 0) 1 0x1010 16 0xFFFFFFF9,
        mk_blk (Some 3) 1 0x1009 9 7,
        mk_blk None 1 0x1009 9 1015]"

definition st_f :: tm_state where
  "st_f =
     demo_state 18 6 (Some 2) (Some 3)
       [mk_blk None 1 0x1000 0 9,
        mk_blk (Some 0) 1 0x1010 16 0xFFFFFFF9,
        mk_blk (Some 4) 1 0x1009 9 7,
        mk_blk (Some 1) 1 0x1010 16 16,
        mk_blk (Some 5) 1 0x1009 9 7,
        mk_blk None 1 0x1020 32 992]"

definition st_j :: tm_state where
  "st_j =
     demo_state 2 4 (Some 2) (Some 1)
       [mk_blk None 1 0x1000 0 9,
        mk_blk (Some 0) 1 0x1010 16 0xFFFFFFF9,
        mk_blk (Some 4) 1 0x1009 9 7,
        mk_blk None (-1) 0x1010 16 1008,
        mk_blk None 1 0x1009 9 1015,
        mk_blk None (-1) 0x1020 32 992]"

definition st_k :: tm_state where
  "st_k =
     demo_state 9 4 (Some 2) (Some 0)
       [mk_blk None 1 0x1000 0 9,
        mk_blk None 1 0x1010 16 0xFFFFFFF9,
        mk_blk (Some 4) 1 0x1009 9 7,
        mk_blk None (-1) 0x1010 16 1008,
        mk_blk (Some 1) 1 0x1009 9 1015,
        mk_blk None (-1) 0x1020 32 992]"

definition st_g :: tm_state where
  "st_g =
     demo_state 25 4 (Some 2) (Some 1)
       [mk_blk None 1 0x1000 0 9,
        mk_blk (Some 0) 1 0x1010 16 16,
        mk_blk (Some 3) 1 0x1009 9 7,
        mk_blk None 1 0x1020 32 992]"

definition st_h :: tm_state where
  "st_h =
     demo_state 0 1 (Some 0) None
       [mk_blk None 1 0x1000 0 1024,
        mk_blk None (-1) 0x1009 9 1015]"

definition st_i :: tm_state where
  "st_i =
     demo_state 8 2 (Some 1) (Some 0)
       [mk_blk None 1 0x1000 0 8,
        mk_blk None 1 0x1008 8 1016]"

definition st_w1 :: tm_state where
  "st_w1 =
     demo_state 64 2 (Some 1) (Some 0)
       [mk_blk None 1 0x1000 0 64,
        mk_blk None 1 0x1040 64 960]"

definition st_w2 :: tm_state where
  "st_w2 =
     demo_state 72 3 (Some 2) (Some 1)
       [mk_blk None 1 0x1000 0 64,
        mk_blk (Some 0) 1 0x1040 64 8,
        mk_blk None 1 0x1048 72 952]"

definition st_w3 :: tm_state where
  "st_w3 =
     demo_state 88 4 (Some 3) (Some 2)
       [mk_blk None 1 0x1000 0 64,
        mk_blk (Some 0) 1 0x1040 64 8,
        mk_blk (Some 1) 1 0x1048 72 16,
        mk_blk None 1 0x1058 88 936]"

definition st_w4 :: tm_state where
  "st_w4 =
     demo_state 96 5 (Some 4) (Some 3)
       [mk_blk None 1 0x1000 0 64,
        mk_blk (Some 0) 1 0x1040 64 8,
        mk_blk (Some 1) 1 0x1048 72 16,
        mk_blk (Some 2) 1 0x1058 88 8,
        mk_blk None 1 0x1060 96 928]"

definition st_w5 :: tm_state where
  "st_w5 =
     demo_state 32 5 (Some 0) (Some 3)
       [mk_blk (Some 4) 1 0x1000 0 64,
        mk_blk None 1 0x1040 64 8,
        mk_blk (Some 1) 1 0x1048 72 16,
        mk_blk (Some 2) 1 0x1058 88 8,
        mk_blk None 1 0x1060 96 928]"

definition st_w6 :: tm_state where
  "st_w6 =
     demo_state 16 5 (Some 0) (Some 3)
       [mk_blk (Some 2) 1 0x1000 0 64,
        mk_blk None 1 0x1040 64 8,
        mk_blk (Some 4) 1 0x1048 72 16,
        mk_blk (Some 1) 1 0x1058 88 8,
        mk_blk None 1 0x1060 96 928]"

definition st_w7 :: tm_state where
  "st_w7 =
     demo_state 32 6 (Some 5) (Some 0)
       [mk_blk (Some 3) 1 0x1000 0 16,
        mk_blk None 1 0x1040 64 8,
        mk_blk (Some 4) 1 0x1048 72 16,
        mk_blk (Some 1) 1 0x1058 88 8,
        mk_blk None 1 0x1060 96 928,
        mk_blk (Some 2) 1 0x1010 16 48]"

text \<open>A sequence of calls of the public functions; the result is the list of the
  addresses the \<open>texmem_alloc\<close> calls returned, with the final state.\<close>

datatype call = Alloc u32 | Free u32

fun run_calls :: "call list \<Rightarrow> tm_state \<Rightarrow> (u32 list \<times> tm_state) option" where
  "run_calls [] s = Some ([], s)"
| "run_calls (Alloc n # cs) s =
     (case texmem_alloc n s of
        None \<Rightarrow> None
      | Some (a, s') \<Rightarrow>
          (case run_calls cs s' of None \<Rightarrow> None | Some (as, t) \<Rightarrow> Some (a # as, t)))"
| "run_calls (Free p # cs) s =
     (case texmem_free p s of None \<Rightarrow> None | Some s' \<Rightarrow> run_calls cs s')"

text \<open>The bytes a block descriptor stands for, \<open>[base, base + size)\<close>.\<close>

definition blk_range :: "tm_block \<Rightarrow> nat set" where
  "blk_range b = {unat (blk_base b) ..< unat (blk_base b) + unat (blk_size b)}"

section \<open>Lemmas and the claims\<close>

subsection \<open>Chains of descriptors\<close>

lemma ptr_of_simps [simp]: "ptr_of [] = None" "ptr_of (x # xs) = Some x"
  by (simp_all add: ptr_of_def)

lemma last_ptr_simps [simp]: "last_ptr p [] = p" "last_ptr p (xs @ [x]) = Some x"
  "last_ptr p (x # xs) = last_ptr (Some x) xs"
  by (simp_all add: last_ptr_def)

lemma path_None [simp]: "path pool None xs q \<longleftrightarrow> xs = [] \<and> q = None"
  by (cases xs) auto

lemma path_append: "path pool p (xs @ ys) q \<longleftrightarrow> (\<exists>r. path pool p xs r \<and> path pool r ys q)"
  by (induction xs arbitrary: p) auto

lemma path_cong_next:
  "(\<And>i. i \<in> set xs \<Longrightarrow> blk_next (pool' i) = blk_next (pool i)) \<Longrightarrow>
   path pool' p xs q = path pool p xs q"
  by (induction xs arbitrary: p) auto

lemma path_ptr_of: "path pool p xs None \<Longrightarrow> p = ptr_of xs"
  by (cases xs) auto

lemma path_unique: "path pool p xs None \<Longrightarrow> path pool p ys None \<Longrightarrow> xs = ys"
proof (induction xs arbitrary: p ys)
  case Nil
  then show ?case by (cases ys) auto
next
  case (Cons x xs)
  then show ?case by (cases ys) auto
qed

lemma path_head_notin:
  assumes "path pool (blk_next (pool x)) xs None"
  shows "x \<notin> set xs"
proof
  assume "x \<in> set xs"
  then obtain ys zs where xs: "xs = ys @ x # zs"
    by (auto simp: in_set_conv_decomp)
  with assms have "path pool (blk_next (pool x)) zs None"
    by (auto simp: path_append)
  with assms have "xs = zs" by (rule path_unique)
  with xs show False by simp
qed

lemma path_distinct: "path pool p xs None \<Longrightarrow> distinct xs"
  by (induction xs arbitrary: p) (auto dest: path_head_notin)

lemma path_last_next:
  "path pool p (xs @ [x]) q \<Longrightarrow> blk_next (pool x) = q"
  by (auto simp: path_append)

subsection \<open>The three walks over a list\<close>

lemma blk_upd_simps [simp]:
  "tm_blockpool (blk_upd i f s) = (tm_blockpool s)(i := f (tm_blockpool s i))"
  "tm_freelist (blk_upd i f s) = tm_freelist s"
  "tm_alloclist (blk_upd i f s) = tm_alloclist s"
  "tm_used (blk_upd i f s) = tm_used s"
  "tm_blocknum (blk_upd i f s) = tm_blocknum s"
  "tm_main (blk_upd i f s) = tm_main s"
  "tm_main_uid (blk_upd i f s) = tm_main_uid s"
  "tm_main_size (blk_upd i f s) = tm_main_size s"
  "tm_main_type (blk_upd i f s) = tm_main_type s"
  "tm_sub_type (blk_upd i f s) = tm_sub_type s"
  by (simp_all add: blk_upd_def)

lemmas set_defs = set_next_def set_type_def set_base_def set_offset_def set_size_def

lemma insert_free_scan_path:
  assumes "path (tm_blockpool s) cur post None"
  shows "\<exists>pre' post'. post = pre' @ post'
           \<and> insert_free_scan s block prev cur = Some (last_ptr prev pre', ptr_of post')
           \<and> (\<forall>i\<in>set pre'. blk_base (blk s i) < blk_base (blk s block))
           \<and> (\<forall>x xs. post' = x # xs \<longrightarrow> \<not> blk_base (blk s x) < blk_base (blk s block))"
  using assms
proof (induction post arbitrary: prev cur)
  case Nil
  then show ?case by (simp add: insert_free_scan.simps)
next
  case (Cons x xs)
  then have cur: "cur = Some x" and rest: "path (tm_blockpool s) (blk_next (blk s x)) xs None"
    by simp_all
  show ?case
  proof (cases "blk_base (blk s x) < blk_base (blk s block)")
    case True
    from Cons.IH[OF rest, of "Some x"] obtain pre' post' where
      "xs = pre' @ post'"
      "insert_free_scan s block (Some x) (blk_next (blk s x)) = Some (last_ptr (Some x) pre', ptr_of post')"
      "\<forall>i\<in>set pre'. blk_base (blk s i) < blk_base (blk s block)"
      "\<forall>y ys. post' = y # ys \<longrightarrow> \<not> blk_base (blk s y) < blk_base (blk s block)"
      by blast
    with True cur show ?thesis
      by (intro exI[of _ "x # pre'"] exI[of _ post']) (simp add: insert_free_scan.simps)
  next
    case False
    with cur show ?thesis
      by (intro exI[of _ "[]"] exI[of _ "x # xs"]) (simp add: insert_free_scan.simps)
  qed
qed

lemma free_scan_path:
  assumes "path (tm_blockpool s) cur post None"
  shows "\<exists>pre' post'. post = pre' @ post'
           \<and> free_scan s base prev cur = Some (last_ptr prev pre', ptr_of post')
           \<and> (\<forall>i\<in>set pre'. blk_base (blk s i) \<noteq> base)
           \<and> (\<forall>x xs. post' = x # xs \<longrightarrow> blk_base (blk s x) = base)"
  using assms
proof (induction post arbitrary: prev cur)
  case Nil
  then show ?case by (simp add: free_scan.simps)
next
  case (Cons x xs)
  then have cur: "cur = Some x" and rest: "path (tm_blockpool s) (blk_next (blk s x)) xs None"
    by simp_all
  show ?case
  proof (cases "blk_base (blk s x) \<noteq> base")
    case True
    from Cons.IH[OF rest, of "Some x"] obtain pre' post' where
      "xs = pre' @ post'"
      "free_scan s base (Some x) (blk_next (blk s x)) = Some (last_ptr (Some x) pre', ptr_of post')"
      "\<forall>i\<in>set pre'. blk_base (blk s i) \<noteq> base"
      "\<forall>y ys. post' = y # ys \<longrightarrow> blk_base (blk s y) = base"
      by blast
    with True cur show ?thesis
      by (intro exI[of _ "x # pre'"] exI[of _ post']) (simp add: free_scan.simps)
  next
    case False
    with cur show ?thesis
      by (intro exI[of _ "[]"] exI[of _ "x # xs"]) (simp add: free_scan.simps)
  qed
qed

lemma heap_blk_alloc_scan_path:
  assumes "path (tm_blockpool s) cur post None"
  shows "((\<forall>i\<in>set post. \<not> blk_fits ty sz al (blk s i))
            \<and> heap_blk_alloc_scan s ty sz al prev cur = Some (None, s))
         \<or> (\<exists>pre' c post'. post = pre' @ c # post'
              \<and> (\<forall>i\<in>set pre'. \<not> blk_fits ty sz al (blk s i))
              \<and> blk_fits ty sz al (blk s c)
              \<and> heap_blk_alloc_scan s ty sz al prev cur
                  = heap_blk_take s sz (blk_skip (blk s c) al) (last_ptr prev pre') c)"
  using assms
proof (induction post arbitrary: prev cur)
  case Nil
  then show ?case by (simp add: heap_blk_alloc_scan.simps)
next
  case (Cons x xs)
  then have cur: "cur = Some x" and rest: "path (tm_blockpool s) (blk_next (blk s x)) xs None"
    by simp_all
  show ?case
  proof (cases "blk_fits ty sz al (blk s x)")
    case True
    with cur have "Cons x xs = [] @ x # xs \<and> (\<forall>i\<in>set []. \<not> blk_fits ty sz al (blk s i))
        \<and> blk_fits ty sz al (blk s x)
        \<and> heap_blk_alloc_scan s ty sz al prev cur
             = heap_blk_take s sz (blk_skip (blk s x) al) (last_ptr prev []) x"
      by (simp add: heap_blk_alloc_scan.simps)
    then show ?thesis by blast
  next
    case False
    from Cons.IH[OF rest, of "Some x"] show ?thesis
    proof
      assume "(\<forall>i\<in>set xs. \<not> blk_fits ty sz al (blk s i))
            \<and> heap_blk_alloc_scan s ty sz al (Some x) (blk_next (blk s x)) = Some (None, s)"
      with False cur show ?thesis by (simp add: heap_blk_alloc_scan.simps)
    next
      assume "\<exists>pre' c post'. xs = pre' @ c # post'
              \<and> (\<forall>i\<in>set pre'. \<not> blk_fits ty sz al (blk s i))
              \<and> blk_fits ty sz al (blk s c)
              \<and> heap_blk_alloc_scan s ty sz al (Some x) (blk_next (blk s x))
                  = heap_blk_take s sz (blk_skip (blk s c) al) (last_ptr (Some x) pre') c"
      then obtain pre' c post' where h: "xs = pre' @ c # post'"
         "\<forall>i\<in>set pre'. \<not> blk_fits ty sz al (blk s i)" "blk_fits ty sz al (blk s c)"
         "heap_blk_alloc_scan s ty sz al (Some x) (blk_next (blk s x))
                  = heap_blk_take s sz (blk_skip (blk s c) al) (last_ptr (Some x) pre') c"
        by blast
      with False cur have "x # xs = (x # pre') @ c # post'
          \<and> (\<forall>i\<in>set (x # pre'). \<not> blk_fits ty sz al (blk s i))
          \<and> blk_fits ty sz al (blk s c)
          \<and> heap_blk_alloc_scan s ty sz al prev cur
              = heap_blk_take s sz (blk_skip (blk s c) al) (last_ptr prev (x # pre')) c"
        by (simp add: heap_blk_alloc_scan.simps)
      then show ?thesis by blast
    qed
  qed
qed

subsection \<open>The block pool\<close>

lemma heap_blk_new_from_cases:
  "(heap_blk_new_from i s = (None, s) \<and> (\<forall>j. i \<le> j \<and> j < TM_MAX_BLOCKS \<longrightarrow> blk_type (blk s j) \<noteq> -1))
   \<or> (\<exists>k. heap_blk_new_from i s = (Some k, (set_type k 0 s)\<lparr>tm_blocknum := tm_blocknum s + 1\<rparr>)
          \<and> i \<le> k \<and> k < TM_MAX_BLOCKS \<and> blk_type (blk s k) = -1
          \<and> (\<forall>j. i \<le> j \<and> j < k \<longrightarrow> blk_type (blk s j) \<noteq> -1))"
proof (induction i s rule: heap_blk_new_from.induct)
  case (1 i s)
  show ?case
  proof (cases "i < TM_MAX_BLOCKS")
    case False
    then show ?thesis by (simp add: heap_blk_new_from.simps)
  next
    case lt: True
    show ?thesis
    proof (cases "blk_type (blk s i) = -1")
      case True
      with lt have "heap_blk_new_from i s = (Some i, (set_type i 0 s)\<lparr>tm_blocknum := tm_blocknum s + 1\<rparr>)"
        by (simp add: heap_blk_new_from.simps)
      with lt True show ?thesis by auto
    next
      case False
      with lt have eq: "heap_blk_new_from i s = heap_blk_new_from (Suc i) s"
        by (simp add: heap_blk_new_from.simps)
      from "1.IH"[OF lt False] show ?thesis
      proof
        assume "heap_blk_new_from (Suc i) s = (None, s) \<and>
          (\<forall>j. Suc i \<le> j \<and> j < TM_MAX_BLOCKS \<longrightarrow> blk_type (blk s j) \<noteq> - 1)"
        with False eq have "heap_blk_new_from i s = (None, s) \<and>
          (\<forall>j. i \<le> j \<and> j < TM_MAX_BLOCKS \<longrightarrow> blk_type (blk s j) \<noteq> - 1)"
          by (metis Suc_leI le_neq_implies_less)
        then show ?thesis ..
      next
        assume "\<exists>k. heap_blk_new_from (Suc i) s = (Some k, (set_type k 0 s)\<lparr>tm_blocknum := tm_blocknum s + 1\<rparr>)
          \<and> Suc i \<le> k \<and> k < TM_MAX_BLOCKS \<and> blk_type (blk s k) = - 1
          \<and> (\<forall>j. Suc i \<le> j \<and> j < k \<longrightarrow> blk_type (blk s j) \<noteq> - 1)"
        then obtain k where k: "heap_blk_new_from (Suc i) s = (Some k, (set_type k 0 s)\<lparr>tm_blocknum := tm_blocknum s + 1\<rparr>)"
          "Suc i \<le> k" "k < TM_MAX_BLOCKS" "blk_type (blk s k) = - 1"
          "\<forall>j. Suc i \<le> j \<and> j < k \<longrightarrow> blk_type (blk s j) \<noteq> - 1"
          by blast
        with False eq have "heap_blk_new_from i s = (Some k, (set_type k 0 s)\<lparr>tm_blocknum := tm_blocknum s + 1\<rparr>)
          \<and> i \<le> k \<and> k < TM_MAX_BLOCKS \<and> blk_type (blk s k) = - 1
          \<and> (\<forall>j. i \<le> j \<and> j < k \<longrightarrow> blk_type (blk s j) \<noteq> - 1)"
          by (metis Suc_leD Suc_leI le_neq_implies_less)
        then show ?thesis by blast
      qed
    qed
  qed
qed

lemma heap_blk_new_cases:
  "(heap_blk_new s = (None, s) \<and> free_slots s = {})
   \<or> (\<exists>k. heap_blk_new s = (Some k, (set_type k 0 s)\<lparr>tm_blocknum := tm_blocknum s + 1\<rparr>)
          \<and> k \<in> free_slots s)"
  using heap_blk_new_from_cases[of 0 s]
  by (auto simp: heap_blk_new_def free_slots_def)

lemma free_slots_set_type:
  "t \<noteq> -1 \<Longrightarrow> free_slots ((set_type k t s)\<lparr>tm_blocknum := n\<rparr>) = free_slots s - {k}"
  by (auto simp: free_slots_def set_defs)

lemma finite_free_slots [simp]: "finite (free_slots s)"
  by (simp add: free_slots_def)

lemma release_new:
  assumes "blk_type (blk s k) = -1"
  shows "heap_blk_release k ((set_type k 0 s)\<lparr>tm_blocknum := tm_blocknum s + 1\<rparr>) = s"
proof -
  have "(blk s k)\<lparr>blk_type := -1\<rparr> = blk s k"
    using assms by simp
  then have "(tm_blockpool s)(k := (blk s k)\<lparr>blk_type := -1\<rparr>) = tm_blockpool s"
    by simp
  then show ?thesis
    by (simp add: heap_blk_release_def set_defs blk_upd_def)
qed

lemma same_but_pool_refl [simp]: "same_but_pool s s"
  by (simp add: same_but_pool_def)

lemma new_same_but_pool [simp]:
  "same_but_pool s ((set_type k t s)\<lparr>tm_blocknum := n\<rparr>)"
  by (simp add: same_but_pool_def set_defs)

lemma take_descriptors_fail:
  assumes "card (free_slots s) < slots_needed sz skip (blk s cur)"
  shows "take_descriptors s sz skip cur = (None, s)"
proof (cases "skip = 0")
  case True
  with assms have d2: "skip + sz \<noteq> blk_size (blk s cur)" and "card (free_slots s) = 0"
    by (auto simp: slots_needed_def split: if_splits)
  then have "free_slots s = {}" by simp
  with heap_blk_new_cases[of s] have "heap_blk_new s = (None, s)" by auto
  with True d2 show ?thesis by (simp add: take_descriptors_def)
next
  case False
  from heap_blk_new_cases[of s] show ?thesis
  proof
    assume "heap_blk_new s = (None, s) \<and> free_slots s = {}"
    with False show ?thesis by (simp add: take_descriptors_def)
  next
    assume "\<exists>k. heap_blk_new s = (Some k, (set_type k 0 s)\<lparr>tm_blocknum := tm_blocknum s + 1\<rparr>)
          \<and> k \<in> free_slots s"
    then obtain k where k: "heap_blk_new s = (Some k, (set_type k 0 s)\<lparr>tm_blocknum := tm_blocknum s + 1\<rparr>)"
      "k \<in> free_slots s" by blast
    let ?s1 = "(set_type k 0 s)\<lparr>tm_blocknum := tm_blocknum s + 1\<rparr>"
    have sz1: "blk_size (blk ?s1 cur) = blk_size (blk s cur)"
      by (simp add: set_defs)
    from k(2) have "free_slots s \<noteq> {}" by auto
    then have pos: "card (free_slots s) \<noteq> 0" by simp
    have "slots_needed sz skip (blk s cur) \<le> 2"
      by (simp add: slots_needed_def)
    with assms pos have c1: "card (free_slots s) = 1" by arith
    have d2: "skip + sz \<noteq> blk_size (blk s cur)"
    proof
      assume "skip + sz = blk_size (blk s cur)"
      with False have "slots_needed sz skip (blk s cur) = 1"
        by (simp add: slots_needed_def)
      with assms c1 show False by simp
    qed
    from c1 k(2) have "free_slots s = {k}"
      by (metis card_1_singletonE singletonD)
    then have "free_slots ?s1 = {}"
      by (simp add: free_slots_set_type)
    with heap_blk_new_cases[of ?s1] have n2: "heap_blk_new ?s1 = (None, ?s1)" by auto
    from k(2) have "blk_type (blk s k) = -1" by (simp add: free_slots_def)
    then have "heap_blk_release k ?s1 = s" by (rule release_new)
    with False d2 k(1) n2 sz1 show ?thesis
      by (simp add: take_descriptors_def)
  qed
qed

lemma take_descriptors_None:
  assumes "take_descriptors s sz skip cur = (None, s')"
  shows "s' = s"
proof (cases "skip = 0")
  case True
  with assms heap_blk_new_cases[of s] show ?thesis
    by (auto simp: take_descriptors_def split: if_splits prod.splits)
next
  case False
  from heap_blk_new_cases[of s] show ?thesis
  proof
    assume "heap_blk_new s = (None, s) \<and> free_slots s = {}"
    with False assms show ?thesis by (simp add: take_descriptors_def)
  next
    assume "\<exists>k. heap_blk_new s = (Some k, (set_type k 0 s)\<lparr>tm_blocknum := tm_blocknum s + 1\<rparr>)
          \<and> k \<in> free_slots s"
    then obtain k where k: "heap_blk_new s = (Some k, (set_type k 0 s)\<lparr>tm_blocknum := tm_blocknum s + 1\<rparr>)"
      "k \<in> free_slots s" by blast
    let ?s1 = "(set_type k 0 s)\<lparr>tm_blocknum := tm_blocknum s + 1\<rparr>"
    from k(2) have "blk_type (blk s k) = -1" by (simp add: free_slots_def)
    then have rel: "heap_blk_release k ?s1 = s" by (rule release_new)
    from heap_blk_new_cases[of ?s1] False assms k(1) rel show ?thesis
      by (auto simp: take_descriptors_def split: if_splits prod.splits)
  qed
qed

lemma take_descriptors_Some:
  assumes "take_descriptors s sz skip cur = (Some (skb, unb), s')"
  shows "same_but_pool s s'"
    and "skip = 0 \<longrightarrow> skb = None"
    and "skip \<noteq> 0 \<longrightarrow> (\<exists>k. skb = Some k \<and> k \<in> free_slots s)"
    and "skip + sz = blk_size (blk s cur) \<longrightarrow> unb = None"
    and "skip + sz \<noteq> blk_size (blk s cur) \<longrightarrow> (\<exists>u. unb = Some u \<and> u \<in> free_slots s \<and> skb \<noteq> Some u)"
    and "\<forall>i. blk s' i = (if Some i = skb \<or> Some i = unb then (blk s i)\<lparr>blk_type := 0\<rparr> else blk s i)"
proof -
  have sz1: "\<And>k t. blk_size (blk (set_type k t s) cur) = blk_size (blk s cur)"
    by (simp add: set_defs)
  have all: "same_but_pool s s' \<and> (skip = 0 \<longrightarrow> skb = None)
    \<and> (skip \<noteq> 0 \<longrightarrow> (\<exists>k. skb = Some k \<and> k \<in> free_slots s))
    \<and> (skip + sz = blk_size (blk s cur) \<longrightarrow> unb = None)
    \<and> (skip + sz \<noteq> blk_size (blk s cur) \<longrightarrow> (\<exists>u. unb = Some u \<and> u \<in> free_slots s \<and> skb \<noteq> Some u))
    \<and> (\<forall>i. blk s' i = (if Some i = skb \<or> Some i = unb then (blk s i)\<lparr>blk_type := 0\<rparr> else blk s i))"
  proof (cases "skip = 0")
    case True
    show ?thesis
    proof (cases "skip + sz = blk_size (blk s cur)")
      case eq: True
      with True assms show ?thesis by (auto simp: take_descriptors_def)
    next
      case False
      from heap_blk_new_cases[of s] show ?thesis
      proof
        assume "heap_blk_new s = (None, s) \<and> free_slots s = {}"
        with True False assms show ?thesis by (simp add: take_descriptors_def)
      next
        assume "\<exists>k. heap_blk_new s = (Some k, (set_type k 0 s)\<lparr>tm_blocknum := tm_blocknum s + 1\<rparr>)
          \<and> k \<in> free_slots s"
        then obtain k where k: "heap_blk_new s = (Some k, (set_type k 0 s)\<lparr>tm_blocknum := tm_blocknum s + 1\<rparr>)"
          "k \<in> free_slots s" by blast
        with True False assms have
          "skb = None" "unb = Some k" "s' = (set_type k 0 s)\<lparr>tm_blocknum := tm_blocknum s + 1\<rparr>"
          by (simp_all add: take_descriptors_def)
        with True False k(2) show ?thesis
          by (auto simp: set_defs same_but_pool_def)
      qed
    qed
  next
    case False
    from heap_blk_new_cases[of s] show ?thesis
    proof
      assume "heap_blk_new s = (None, s) \<and> free_slots s = {}"
      with False assms show ?thesis by (simp add: take_descriptors_def)
    next
      assume "\<exists>k. heap_blk_new s = (Some k, (set_type k 0 s)\<lparr>tm_blocknum := tm_blocknum s + 1\<rparr>)
          \<and> k \<in> free_slots s"
      then obtain k where k: "heap_blk_new s = (Some k, (set_type k 0 s)\<lparr>tm_blocknum := tm_blocknum s + 1\<rparr>)"
        "k \<in> free_slots s" by blast
      let ?s1 = "(set_type k 0 s)\<lparr>tm_blocknum := tm_blocknum s + 1\<rparr>"
      have fs1: "free_slots ?s1 = free_slots s - {k}" by (simp add: free_slots_set_type)
      show ?thesis
      proof (cases "skip + sz = blk_size (blk s cur)")
        case True
        with False assms k(1) have
          "skb = Some k" "unb = None" "s' = (set_type k 0 s)\<lparr>tm_blocknum := tm_blocknum s + 1\<rparr>"
          by (simp_all add: take_descriptors_def sz1)
        with True False k(2) show ?thesis
          by (auto simp: set_defs same_but_pool_def)
      next
        case d2: False
        from heap_blk_new_cases[of ?s1] show ?thesis
        proof
          assume "heap_blk_new ?s1 = (None, ?s1) \<and> free_slots ?s1 = {}"
          with False d2 assms k show ?thesis by (simp add: take_descriptors_def sz1)
        next
          assume "\<exists>u. heap_blk_new ?s1 = (Some u, (set_type u 0 ?s1)\<lparr>tm_blocknum := tm_blocknum ?s1 + 1\<rparr>)
              \<and> u \<in> free_slots ?s1"
          then obtain u where u: "heap_blk_new ?s1 = (Some u, (set_type u 0 ?s1)\<lparr>tm_blocknum := tm_blocknum ?s1 + 1\<rparr>)"
            "u \<in> free_slots ?s1" by blast
          from u(2) fs1 have uk: "u \<noteq> k" "u \<in> free_slots s" by auto
          from False d2 assms k(1) u(1) have
            "skb = Some k" "unb = Some u" "s' = (set_type u 0 ?s1)\<lparr>tm_blocknum := tm_blocknum ?s1 + 1\<rparr>"
            by (simp_all add: take_descriptors_def sz1)
          with False d2 k(2) uk show ?thesis
            by (auto simp: set_defs same_but_pool_def)
        qed
      qed
    qed
  qed
  then show "same_but_pool s s'" and "skip = 0 \<longrightarrow> skb = None"
    and "skip \<noteq> 0 \<longrightarrow> (\<exists>k. skb = Some k \<and> k \<in> free_slots s)"
    and "skip + sz = blk_size (blk s cur) \<longrightarrow> unb = None"
    and "skip + sz \<noteq> blk_size (blk s cur) \<longrightarrow> (\<exists>u. unb = Some u \<and> u \<in> free_slots s \<and> skb \<noteq> Some u)"
    and "\<forall>i. blk s' i = (if Some i = skb \<or> Some i = unb then (blk s i)\<lparr>blk_type := 0\<rparr> else blk s i)"
    by blast+
qed

subsection \<open>Taking a block off the free list\<close>

lemma path_upd_notin [simp]:
  "x \<notin> set xs \<Longrightarrow> path (pool(x := b)) p xs q = path pool p xs q"
  by (rule path_cong_next) auto

lemma path_upd_next:
  "blk_next b = blk_next (pool x) \<Longrightarrow> path (pool(x := b)) p xs q = path pool p xs q"
  by (rule path_cong_next) auto

lemma path_snoc:
  "path pool p (xs @ [x]) q \<longleftrightarrow> path pool p xs (Some x) \<and> blk_next (pool x) = q"
  by (auto simp: path_append)

lemma carve_skip_ok:
  assumes ok: "lists_ok s (pre @ c # post) as"
    and k: "k \<notin> set (pre @ c # post)" "k \<notin> set as"
    and skip: "skip \<noteq> 0"
  shows "\<exists>s'. carve_skip skip (Some k) (last_ptr None pre) c s = Some (Some k, s')
           \<and> lists_ok s' (pre @ k # c # post) as
           \<and> (\<forall>i\<in>set as. blk s' i = blk s i)
           \<and> tm_alloclist s' = tm_alloclist s \<and> tm_used s' = tm_used s
           \<and> tm_main_type s' = tm_main_type s
           \<and> blk_base (blk s' c) = blk_base (blk s c) + skip
           \<and> blk_size (blk s' c) = blk_size (blk s c) - skip
           \<and> blk_size (blk s' k) = skip"
proof -
  from ok have fl: "path (tm_blockpool s) (tm_freelist s) (pre @ c # post) None"
    and al: "path (tm_blockpool s) (tm_alloclist s) as None"
    and disj: "set (pre @ c # post) \<inter> set as = {}"
    and ty: "\<forall>i\<in>set (pre @ c # post) \<union> set as. blk_type (blk s i) \<noteq> -1"
    by (simp_all add: lists_ok_def)
  from fl have dist: "distinct (pre @ c # post)" by (rule path_distinct)
  show ?thesis
  proof (cases pre rule: rev_cases)
    case Nil
    with fl al disj ty dist k skip show ?thesis
      by (auto simp: carve_skip_def lists_ok_def set_defs Let_def path_upd_next)
  next
    case (snoc ys p)
    with fl al disj ty dist k skip show ?thesis
      by (auto simp: carve_skip_def lists_ok_def set_defs Let_def path_upd_next path_append)
  qed
qed

lemma carve_unused_ok:
  assumes ok: "lists_ok s (pre @ c # post) as"
    and u: "u \<notin> set (pre @ c # post)" "u \<notin> set as"
    and cond: "sz \<noteq> blk_size (blk s c)"
  shows "\<exists>s'. carve_unused sz (Some u) c s = Some s'
           \<and> lists_ok s' (pre @ c # u # post) as
           \<and> (\<forall>i\<in>set as. blk s' i = blk s i)
           \<and> tm_alloclist s' = tm_alloclist s \<and> tm_used s' = tm_used s
           \<and> tm_main_type s' = tm_main_type s
           \<and> blk_base (blk s' c) = blk_base (blk s c)
           \<and> blk_size (blk s' c) = sz"
proof -
  from ok have fl: "path (tm_blockpool s) (tm_freelist s) (pre @ c # post) None"
    and al: "path (tm_blockpool s) (tm_alloclist s) as None"
    and disj: "set (pre @ c # post) \<inter> set as = {}"
    and ty: "\<forall>i\<in>set (pre @ c # post) \<union> set as. blk_type (blk s i) \<noteq> -1"
    by (simp_all add: lists_ok_def)
  from fl have dist: "distinct (pre @ c # post)" by (rule path_distinct)
  from fl al disj ty dist u cond show ?thesis
    by (auto simp: carve_unused_def lists_ok_def set_defs Let_def path_upd_next path_append)
qed

lemma unlink_push_ok:
  assumes ok: "lists_ok s (pre @ c # rest) as"
  shows "lists_ok (unlink_push (last_ptr None pre) c s) (pre @ rest) (c # as)
           \<and> (\<forall>i\<in>set as. blk (unlink_push (last_ptr None pre) c s) i = blk s i)
           \<and> tm_used (unlink_push (last_ptr None pre) c s) = tm_used s + blk_size (blk s c)
           \<and> tm_main_type (unlink_push (last_ptr None pre) c s) = tm_main_type s
           \<and> blk_base (blk (unlink_push (last_ptr None pre) c s) c) = blk_base (blk s c)
           \<and> blk_size (blk (unlink_push (last_ptr None pre) c s) c) = blk_size (blk s c)"
proof -
  from ok have fl: "path (tm_blockpool s) (tm_freelist s) (pre @ c # rest) None"
    and al: "path (tm_blockpool s) (tm_alloclist s) as None"
    and disj: "set (pre @ c # rest) \<inter> set as = {}"
    and ty: "\<forall>i\<in>set (pre @ c # rest) \<union> set as. blk_type (blk s i) \<noteq> -1"
    by (simp_all add: lists_ok_def)
  from fl have dist: "distinct (pre @ c # rest)" by (rule path_distinct)
  show ?thesis
  proof (cases pre rule: rev_cases)
    case Nil
    with fl al disj ty dist show ?thesis
      by (auto simp: unlink_push_def lists_ok_def set_defs Let_def path_upd_next)
  next
    case (snoc ys p)
    with fl al disj ty dist show ?thesis
      by (auto simp: unlink_push_def lists_ok_def set_defs Let_def path_upd_next path_append)
  qed
qed

lemma word_skip_cond:
  fixes skip sz S :: u32
  shows "(sz \<noteq> S - skip) = (skip + sz \<noteq> S)"
  by auto

lemma heap_blk_take_ok:
  assumes ok: "lists_ok s (pre @ c # post) as"
  shows "heap_blk_take s sz skip (last_ptr None pre) c = Some (None, s)
       \<or> (\<exists>s' fs'. heap_blk_take s sz skip (last_ptr None pre) c = Some (Some c, s')
             \<and> lists_ok s' fs' (c # as)
             \<and> (\<forall>i\<in>set as. blk s' i = blk s i)
             \<and> tm_used s' = tm_used s + sz
             \<and> blk_size (blk s' c) = sz
             \<and> blk_base (blk s' c) = blk_base (blk s c) + skip
             \<and> tm_main_type s' = tm_main_type s)"
proof -
  obtain r0 s1 where td: "take_descriptors s sz skip c = (r0, s1)"
    by (cases "take_descriptors s sz skip c") auto
  show ?thesis
  proof (cases r0)
    case None
    with td have "s1 = s" by (auto dest: take_descriptors_None)
    with td None show ?thesis by (simp add: heap_blk_take_def)
  next
    case (Some pr)
    obtain skb unb where pr: "pr = (skb, unb)" by (cases pr) auto
    from td Some pr have td': "take_descriptors s sz skip c = (Some (skb, unb), s1)" by simp
    note f = take_descriptors_Some[OF td']
    from ok have ty: "\<forall>i\<in>set (pre @ c # post) \<union> set as. blk_type (blk s i) \<noteq> -1"
      by (simp add: lists_ok_def)
    have fresh: "\<And>k. k \<in> free_slots s \<Longrightarrow> k \<notin> set (pre @ c # post) \<and> k \<notin> set as"
      using ty by (auto simp: free_slots_def)
    have skb_fresh: "\<And>k. skb = Some k \<Longrightarrow> k \<notin> set (pre @ c # post) \<and> k \<notin> set as"
      using f(2,3) fresh by (cases "skip = 0") auto
    have unb_fresh: "\<And>u. unb = Some u \<Longrightarrow> u \<notin> set (pre @ c # post) \<and> u \<notin> set as \<and> skb \<noteq> Some u"
      using f(4,5) fresh by (cases "skip + sz = blk_size (blk s c)") auto
    have same1: "\<forall>i\<in>set (pre @ c # post) \<union> set as. blk s1 i = blk s i"
      using f(6) skb_fresh unb_fresh by auto
    have next1: "\<And>i. blk_next (blk s1 i) = blk_next (blk s i)"
      using f(6) by simp
    have ok1: "lists_ok s1 (pre @ c # post) as"
      using ok same1 f(1) path_cong_next[of _ "tm_blockpool s1" "tm_blockpool s", OF next1]
      by (simp add: lists_ok_def same_but_pool_def)
    have B: "\<exists>pre2 s2. carve_skip skip skb (last_ptr None pre) c s1 = Some (last_ptr None pre2, s2)
        \<and> lists_ok s2 (pre2 @ c # post) as
        \<and> (\<forall>i\<in>set as. blk s2 i = blk s i)
        \<and> tm_used s2 = tm_used s \<and> tm_main_type s2 = tm_main_type s
        \<and> blk_base (blk s2 c) = blk_base (blk s c) + skip
        \<and> blk_size (blk s2 c) = blk_size (blk s c) - skip
        \<and> (\<forall>u. unb = Some u \<longrightarrow> u \<notin> set (pre2 @ c # post))"
    proof (cases "skip = 0")
      case True
      then have "carve_skip skip skb (last_ptr None pre) c s1 = Some (last_ptr None pre, s1)"
        by (simp add: carve_skip_def)
      with ok1 same1 f(1) True unb_fresh show ?thesis
        by (intro exI[of _ pre] exI[of _ s1]) (simp add: same_but_pool_def)
    next
      case False
      with f(3) obtain k where k: "skb = Some k" by auto
      from skb_fresh[OF k] have kf: "k \<notin> set (pre @ c # post)" "k \<notin> set as" by auto
      from carve_skip_ok[OF ok1 kf False] obtain s2 where s2:
        "carve_skip skip (Some k) (last_ptr None pre) c s1 = Some (Some k, s2)"
        "lists_ok s2 (pre @ k # c # post) as"
        "\<forall>i\<in>set as. blk s2 i = blk s1 i"
        "tm_alloclist s2 = tm_alloclist s1" "tm_used s2 = tm_used s1"
        "tm_main_type s2 = tm_main_type s1"
        "blk_base (blk s2 c) = blk_base (blk s1 c) + skip"
        "blk_size (blk s2 c) = blk_size (blk s1 c) - skip"
        by blast
      from s2 k same1 f(1) unb_fresh show ?thesis
        by (intro exI[of _ "pre @ [k]"] exI[of _ s2]) (auto simp: same_but_pool_def)
    qed
    then obtain pre2 s2 where s2:
      "carve_skip skip skb (last_ptr None pre) c s1 = Some (last_ptr None pre2, s2)"
      "lists_ok s2 (pre2 @ c # post) as"
      "\<forall>i\<in>set as. blk s2 i = blk s i"
      "tm_used s2 = tm_used s" "tm_main_type s2 = tm_main_type s"
      "blk_base (blk s2 c) = blk_base (blk s c) + skip"
      "blk_size (blk s2 c) = blk_size (blk s c) - skip"
      "\<forall>u. unb = Some u \<longrightarrow> u \<notin> set (pre2 @ c # post)"
      by blast
    have cond: "(sz \<noteq> blk_size (blk s2 c)) = (skip + sz \<noteq> blk_size (blk s c))"
      using s2(7) by (simp add: word_skip_cond)
    have C: "\<exists>rest s3. carve_unused sz unb c s2 = Some s3
        \<and> lists_ok s3 (pre2 @ c # rest) as
        \<and> (\<forall>i\<in>set as. blk s3 i = blk s i)
        \<and> tm_used s3 = tm_used s \<and> tm_main_type s3 = tm_main_type s
        \<and> blk_base (blk s3 c) = blk_base (blk s c) + skip
        \<and> blk_size (blk s3 c) = sz"
    proof (cases "skip + sz = blk_size (blk s c)")
      case True
      with cond have "carve_unused sz unb c s2 = Some s2" "blk_size (blk s2 c) = sz"
        by (simp_all add: carve_unused_def)
      with s2 show ?thesis
        by (intro exI[of _ post] exI[of _ s2]) simp
    next
      case False
      with f(5) obtain u where u: "unb = Some u" by auto
      from unb_fresh[OF u] s2(8) u have uf: "u \<notin> set (pre2 @ c # post)" "u \<notin> set as" by auto
      from False cond have c2: "sz \<noteq> blk_size (blk s2 c)" by simp
      from carve_unused_ok[OF s2(2) uf c2] obtain s3 where s3:
        "carve_unused sz (Some u) c s2 = Some s3"
        "lists_ok s3 (pre2 @ c # u # post) as"
        "\<forall>i\<in>set as. blk s3 i = blk s2 i"
        "tm_alloclist s3 = tm_alloclist s2" "tm_used s3 = tm_used s2"
        "tm_main_type s3 = tm_main_type s2"
        "blk_base (blk s3 c) = blk_base (blk s2 c)"
        "blk_size (blk s3 c) = sz"
        by blast
      with s2 u show ?thesis
        by (intro exI[of _ "u # post"] exI[of _ s3]) simp
    qed
    then obtain rest s3 where s3:
      "carve_unused sz unb c s2 = Some s3"
      "lists_ok s3 (pre2 @ c # rest) as"
      "\<forall>i\<in>set as. blk s3 i = blk s i"
      "tm_used s3 = tm_used s" "tm_main_type s3 = tm_main_type s"
      "blk_base (blk s3 c) = blk_base (blk s c) + skip"
      "blk_size (blk s3 c) = sz"
      by blast
    let ?s4 = "unlink_push (last_ptr None pre2) c s3"
    from td' s2(1) s3(1) have res: "heap_blk_take s sz skip (last_ptr None pre) c = Some (Some c, ?s4)"
      by (simp add: heap_blk_take_def)
    from unlink_push_ok[OF s3(2)] s3 have
      "lists_ok ?s4 (pre2 @ rest) (c # as)
       \<and> (\<forall>i\<in>set as. blk ?s4 i = blk s i)
       \<and> tm_used ?s4 = tm_used s + sz
       \<and> blk_size (blk ?s4 c) = sz
       \<and> blk_base (blk ?s4 c) = blk_base (blk s c) + skip
       \<and> tm_main_type ?s4 = tm_main_type s"
      by simp
    with res show ?thesis by blast
  qed
qed

subsection \<open>Inserting a free block\<close>

lemma path_ptr_of_eq: "path pool p xs None \<Longrightarrow> ptr_of xs = p"
  by (cases xs) auto

lemma insert_link_ok:
  assumes ok: "lists_ok s (pre @ post) as"
    and b: "block \<notin> set (pre @ post)" "block \<notin> set as" "blk_type (blk s block) \<noteq> -1"
  shows "lists_ok (insert_link block (last_ptr None pre) (ptr_of post) s) (pre @ block # post) as
       \<and> (\<forall>i\<in>set as. blk (insert_link block (last_ptr None pre) (ptr_of post) s) i = blk s i)
       \<and> tm_used (insert_link block (last_ptr None pre) (ptr_of post) s) = tm_used s
       \<and> tm_main_type (insert_link block (last_ptr None pre) (ptr_of post) s) = tm_main_type s
       \<and> tm_alloclist (insert_link block (last_ptr None pre) (ptr_of post) s) = tm_alloclist s"
proof -
  from ok have fl: "path (tm_blockpool s) (tm_freelist s) (pre @ post) None"
    and al: "path (tm_blockpool s) (tm_alloclist s) as None"
    and disj: "set (pre @ post) \<inter> set as = {}"
    and ty: "\<forall>i\<in>set (pre @ post) \<union> set as. blk_type (blk s i) \<noteq> -1"
    by (simp_all add: lists_ok_def)
  from fl have dist: "distinct (pre @ post)" by (rule path_distinct)
  show ?thesis
  proof (cases pre rule: rev_cases)
    case Nil
    with fl have "ptr_of post = tm_freelist s" by (simp add: path_ptr_of_eq)
    with Nil fl al disj ty dist b show ?thesis
      by (auto simp: insert_link_def lists_ok_def set_defs Let_def path_upd_next)
  next
    case (snoc ys p)
    with fl have "path (tm_blockpool s) (blk_next (blk s p)) post None"
      by (auto simp: path_append)
    then have "ptr_of post = blk_next (blk s p)" by (rule path_ptr_of_eq)
    with snoc fl al disj ty dist b show ?thesis
      by (auto simp: insert_link_def lists_ok_def set_defs Let_def path_upd_next path_append)
  qed
qed

lemma merge_curr_ok:
  assumes ok: "lists_ok s (pre @ b # post) as"
  shows "\<exists>rest. lists_ok (merge_curr b (ptr_of post) s) (pre @ b # rest) as
       \<and> (\<forall>i\<in>set as. blk (merge_curr b (ptr_of post) s) i = blk s i)
       \<and> tm_used (merge_curr b (ptr_of post) s) = tm_used s
       \<and> tm_main_type (merge_curr b (ptr_of post) s) = tm_main_type s
       \<and> tm_alloclist (merge_curr b (ptr_of post) s) = tm_alloclist s"
proof -
  from ok have fl: "path (tm_blockpool s) (tm_freelist s) (pre @ b # post) None"
    and al: "path (tm_blockpool s) (tm_alloclist s) as None"
    and disj: "set (pre @ b # post) \<inter> set as = {}"
    and ty: "\<forall>i\<in>set (pre @ b # post) \<union> set as. blk_type (blk s i) \<noteq> -1"
    by (simp_all add: lists_ok_def)
  from fl have dist: "distinct (pre @ b # post)" by (rule path_distinct)
  show ?thesis
  proof (cases post)
    case Nil
    with ok show ?thesis
      by (intro exI[of _ "[]"]) (simp add: merge_curr_def)
  next
    case (Cons c post')
    show ?thesis
    proof (cases "heap_blk_mergeable (blk s b) (blk s c)")
      case False
      with Cons ok show ?thesis
        by (intro exI[of _ "c # post'"]) (simp add: merge_curr_def)
    next
      case True
      with Cons fl al disj ty dist show ?thesis
        by (intro exI[of _ "post'"])
           (auto simp: merge_curr_def heap_blk_release_def lists_ok_def set_defs Let_def
                       path_upd_next path_append)
    qed
  qed
qed

lemma merge_prev_ok:
  assumes ok: "lists_ok s (pre @ b # rest) as"
  shows "\<exists>fs'. lists_ok (merge_prev b (last_ptr None pre) s) fs' as
       \<and> (\<forall>i\<in>set as. blk (merge_prev b (last_ptr None pre) s) i = blk s i)
       \<and> tm_used (merge_prev b (last_ptr None pre) s) = tm_used s
       \<and> tm_main_type (merge_prev b (last_ptr None pre) s) = tm_main_type s
       \<and> tm_alloclist (merge_prev b (last_ptr None pre) s) = tm_alloclist s"
proof -
  from ok have fl: "path (tm_blockpool s) (tm_freelist s) (pre @ b # rest) None"
    and al: "path (tm_blockpool s) (tm_alloclist s) as None"
    and disj: "set (pre @ b # rest) \<inter> set as = {}"
    and ty: "\<forall>i\<in>set (pre @ b # rest) \<union> set as. blk_type (blk s i) \<noteq> -1"
    by (simp_all add: lists_ok_def)
  from fl have dist: "distinct (pre @ b # rest)" by (rule path_distinct)
  show ?thesis
  proof (cases pre rule: rev_cases)
    case Nil
    with ok show ?thesis
      by (intro exI[of _ "b # rest"]) (simp add: merge_prev_def)
  next
    case (snoc ys p)
    show ?thesis
    proof (cases "heap_blk_mergeable (blk s p) (blk s b)")
      case False
      with snoc ok show ?thesis
        by (intro exI[of _ "ys @ p # b # rest"]) (simp add: merge_prev_def)
    next
      case True
      with snoc fl al disj ty dist show ?thesis
        by (intro exI[of _ "ys @ p # rest"])
           (auto simp: merge_prev_def heap_blk_release_def lists_ok_def set_defs Let_def
                       path_upd_next path_append)
    qed
  qed
qed

lemma heap_blk_insert_free_ok:
  assumes ok: "lists_ok s fs as"
    and b: "block \<notin> set fs" "block \<notin> set as" "blk_type (blk s block) \<noteq> -1"
  shows "\<exists>s' fs'. heap_blk_insert_free block s = Some s'
       \<and> lists_ok s' fs' as
       \<and> (\<forall>i\<in>set as. blk s' i = blk s i)
       \<and> tm_used s' = tm_used s
       \<and> tm_main_type s' = tm_main_type s
       \<and> tm_alloclist s' = tm_alloclist s"
proof -
  from ok have fl: "path (tm_blockpool s) (tm_freelist s) fs None"
    by (simp add: lists_ok_def)
  from insert_free_scan_path[OF fl, of block None] obtain pre post where
    sp: "fs = pre @ post"
    and scan: "insert_free_scan s block None (tm_freelist s) = Some (last_ptr None pre, ptr_of post)"
    by blast
  let ?s1 = "insert_link block (last_ptr None pre) (ptr_of post) s"
  let ?s2 = "merge_curr block (ptr_of post) ?s1"
  let ?s3 = "merge_prev block (last_ptr None pre) ?s2"
  from scan have res: "heap_blk_insert_free block s = Some ?s3"
    by (simp add: heap_blk_insert_free_def)
  from ok b sp have s1: "lists_ok ?s1 (pre @ block # post) as"
    "\<forall>i\<in>set as. blk ?s1 i = blk s i" "tm_used ?s1 = tm_used s"
    "tm_main_type ?s1 = tm_main_type s" "tm_alloclist ?s1 = tm_alloclist s"
    using insert_link_ok[of s pre post as block] by simp_all
  from merge_curr_ok[OF s1(1)] obtain rest where s2: "lists_ok ?s2 (pre @ block # rest) as"
    "\<forall>i\<in>set as. blk ?s2 i = blk ?s1 i" "tm_used ?s2 = tm_used ?s1"
    "tm_main_type ?s2 = tm_main_type ?s1" "tm_alloclist ?s2 = tm_alloclist ?s1"
    by blast
  from merge_prev_ok[OF s2(1)] obtain fs' where s3: "lists_ok ?s3 fs' as"
    "\<forall>i\<in>set as. blk ?s3 i = blk ?s2 i" "tm_used ?s3 = tm_used ?s2"
    "tm_main_type ?s3 = tm_main_type ?s2" "tm_alloclist ?s3 = tm_alloclist ?s2"
    by blast
  from res s1 s2 s3 show ?thesis
    by (intro exI[of _ ?s3] exI[of _ fs']) simp
qed

subsection \<open>Allocation and release keep the lists\<close>

lemma lists_ok_free_path:
  "lists_ok s fs as \<Longrightarrow> path (tm_blockpool s) (tm_freelist s) fs None"
  by (simp add: lists_ok_def)

lemma lists_ok_alloc_path:
  "lists_ok s fs as \<Longrightarrow> path (tm_blockpool s) (tm_alloclist s) as None"
  by (simp add: lists_ok_def)

lemma heap_blk_alloc_ok:
  assumes ok: "lists_ok s fs as"
  shows "heap_blk_alloc s ty sz al = Some (None, s)
       \<or> (\<exists>c s' fs'. heap_blk_alloc s ty sz al = Some (Some c, s')
             \<and> c \<in> set fs \<and> blk_fits ty sz al (blk s c)
             \<and> lists_ok s' fs' (c # as)
             \<and> (\<forall>i\<in>set as. blk s' i = blk s i)
             \<and> tm_used s' = tm_used s + sz
             \<and> blk_size (blk s' c) = sz
             \<and> blk_base (blk s' c) = ALIGN (blk_base (blk s c)) al
             \<and> tm_main_type s' = tm_main_type s)"
proof -
  from heap_blk_alloc_scan_path[OF lists_ok_free_path[OF ok], of ty sz al None]
  show ?thesis
  proof
    assume "(\<forall>i\<in>set fs. \<not> blk_fits ty sz al (blk s i))
        \<and> heap_blk_alloc_scan s ty sz al None (tm_freelist s) = Some (None, s)"
    then show ?thesis by (simp add: heap_blk_alloc_def)
  next
    assume "\<exists>pre' c post'. fs = pre' @ c # post'
        \<and> (\<forall>i\<in>set pre'. \<not> blk_fits ty sz al (blk s i))
        \<and> blk_fits ty sz al (blk s c)
        \<and> heap_blk_alloc_scan s ty sz al None (tm_freelist s)
            = heap_blk_take s sz (blk_skip (blk s c) al) (last_ptr None pre') c"
    then obtain pre c post where h: "fs = pre @ c # post" "blk_fits ty sz al (blk s c)"
      "heap_blk_alloc_scan s ty sz al None (tm_freelist s)
            = heap_blk_take s sz (blk_skip (blk s c) al) (last_ptr None pre) c"
      by blast
    from ok h(1) have ok': "lists_ok s (pre @ c # post) as" by simp
    have al: "blk_base (blk s c) + blk_skip (blk s c) al = ALIGN (blk_base (blk s c)) al"
      by (simp add: blk_skip_def)
    from heap_blk_take_ok[OF ok', of sz "blk_skip (blk s c) al"] h al show ?thesis
      by (auto simp: heap_blk_alloc_def)
  qed
qed

lemma free_unlink_ok:
  assumes ok: "lists_ok s fs (pre @ c # post)"
  shows "lists_ok (free_unlink (last_ptr None pre) c s) fs (pre @ post)
       \<and> c \<notin> set fs \<and> c \<notin> set (pre @ post)
       \<and> blk_type (blk (free_unlink (last_ptr None pre) c s) c) \<noteq> -1
       \<and> (\<forall>i\<in>set (pre @ post). blk_size (blk (free_unlink (last_ptr None pre) c s) i) = blk_size (blk s i)
              \<and> blk_base (blk (free_unlink (last_ptr None pre) c s) i) = blk_base (blk s i))
       \<and> tm_used (free_unlink (last_ptr None pre) c s) = tm_used s - blk_size (blk s c)
       \<and> tm_main_type (free_unlink (last_ptr None pre) c s) = tm_main_type s"
proof -
  from ok have fl: "path (tm_blockpool s) (tm_freelist s) fs None"
    and al: "path (tm_blockpool s) (tm_alloclist s) (pre @ c # post) None"
    and disj: "set fs \<inter> set (pre @ c # post) = {}"
    and ty: "\<forall>i\<in>set fs \<union> set (pre @ c # post). blk_type (blk s i) \<noteq> -1"
    by (simp_all add: lists_ok_def)
  from al have dist: "distinct (pre @ c # post)" by (rule path_distinct)
  show ?thesis
  proof (cases pre rule: rev_cases)
    case Nil
    with fl al disj ty dist show ?thesis
      by (auto simp: free_unlink_def lists_ok_def set_defs Let_def path_upd_next)
  next
    case (snoc ys p)
    with fl al disj ty dist show ?thesis
      by (auto simp: free_unlink_def lists_ok_def set_defs Let_def path_upd_next path_append)
  qed
qed

lemma heap_blk_free_ok:
  assumes ok: "lists_ok s fs as"
  shows "((\<forall>i\<in>set as. blk_base (blk s i) \<noteq> base) \<and> heap_blk_free base s = Some s)
       \<or> (\<exists>pre c post s' fs'. as = pre @ c # post
             \<and> (\<forall>i\<in>set pre. blk_base (blk s i) \<noteq> base) \<and> blk_base (blk s c) = base
             \<and> heap_blk_free base s = Some s'
             \<and> lists_ok s' fs' (pre @ post)
             \<and> (\<forall>i\<in>set (pre @ post). blk_size (blk s' i) = blk_size (blk s i)
                    \<and> blk_base (blk s' i) = blk_base (blk s i))
             \<and> tm_used s' = tm_used s - blk_size (blk s c)
             \<and> tm_main_type s' = tm_main_type s)"
proof -
  from free_scan_path[OF lists_ok_alloc_path[OF ok], of base None] obtain pre post where
    sp: "as = pre @ post"
    and scan: "free_scan s base None (tm_alloclist s) = Some (last_ptr None pre, ptr_of post)"
    and ne: "\<forall>i\<in>set pre. blk_base (blk s i) \<noteq> base"
    and hit: "\<forall>x xs. post = x # xs \<longrightarrow> blk_base (blk s x) = base"
    by blast
  show ?thesis
  proof (cases post)
    case Nil
    with sp scan ne show ?thesis by (simp add: heap_blk_free_def)
  next
    case (Cons c post')
    let ?s1 = "free_unlink (last_ptr None pre) c s"
    from Cons scan have res: "heap_blk_free base s = heap_blk_insert_free c ?s1"
      by (simp add: heap_blk_free_def)
    from ok sp Cons have ok': "lists_ok s fs (pre @ c # post')" by simp
    note u = free_unlink_ok[OF ok']
    from u have ok1: "lists_ok ?s1 fs (pre @ post')" and c1: "c \<notin> set fs" "c \<notin> set (pre @ post')"
      "blk_type (blk ?s1 c) \<noteq> -1" by simp_all
    from heap_blk_insert_free_ok[OF ok1 c1] obtain s' fs' where s':
      "heap_blk_insert_free c ?s1 = Some s'" "lists_ok s' fs' (pre @ post')"
      "\<forall>i\<in>set (pre @ post'). blk s' i = blk ?s1 i" "tm_used s' = tm_used ?s1"
      "tm_main_type s' = tm_main_type ?s1"
      by blast
    from u have keep: "\<forall>i\<in>set (pre @ post'). blk_size (blk ?s1 i) = blk_size (blk s i)
                    \<and> blk_base (blk ?s1 i) = blk_base (blk s i)"
      and used1: "tm_used ?s1 = tm_used s - blk_size (blk s c)"
      and mt1: "tm_main_type ?s1 = tm_main_type s"
      by blast+
    from keep s'(3) have keep': "\<forall>i\<in>set (pre @ post'). blk_size (blk s' i) = blk_size (blk s i)
                    \<and> blk_base (blk s' i) = blk_base (blk s i)"
      by simp
    from hit Cons have hc: "blk_base (blk s c) = base" by simp
    have "as = pre @ c # post'
             \<and> (\<forall>i\<in>set pre. blk_base (blk s i) \<noteq> base) \<and> blk_base (blk s c) = base
             \<and> heap_blk_free base s = Some s'
             \<and> lists_ok s' fs' (pre @ post')
             \<and> (\<forall>i\<in>set (pre @ post'). blk_size (blk s' i) = blk_size (blk s i)
                    \<and> blk_base (blk s' i) = blk_base (blk s i))
             \<and> tm_used s' = tm_used s - blk_size (blk s c)
             \<and> tm_main_type s' = tm_main_type s"
      using sp Cons ne hc res s'(1,2,4,5) keep' used1 mt1 by simp
    then show ?thesis by blast
  qed
qed

subsection \<open>Initialisation and reachable states\<close>

lemma heap_blk_new_heap_init:
  "heap_blk_new (heap_init s) =
     (Some 0, (set_type 0 0 (heap_init s))\<lparr>tm_blocknum := tm_blocknum s + 1\<rparr>)"
  by (simp add: heap_blk_new_def heap_blk_new_from.simps[of 0] heap_init_def TM_MAX_BLOCKS_def)

lemma heap_blk_insert_free_empty:
  "tm_freelist s = None \<Longrightarrow>
   heap_blk_insert_free b s = Some (set_next b None (s\<lparr>tm_freelist := Some b\<rparr>))"
  by (simp add: heap_blk_insert_free_def insert_free_scan.simps insert_link_def merge_curr_def
      merge_prev_def)

lemma heap_extend_heap_init:
  "heap_extend ty base sz (heap_init s) =
     Some (set_next 0 None ((set_size 0 sz (set_offset 0 0 (set_base 0 base (set_type 0 ty
       (set_next 0 None ((set_type 0 0 (heap_init s))\<lparr>tm_blocknum := tm_blocknum s + 1\<rparr>))))))
       \<lparr>tm_freelist := Some 0\<rparr>))"
proof -
  have "tm_freelist (set_size 0 sz (set_offset 0 0 (set_base 0 base (set_type 0 ty
       (set_next 0 None ((set_type 0 0 (heap_init s))\<lparr>tm_blocknum := tm_blocknum s + 1\<rparr>)))))) = None"
    by (simp add: set_defs heap_init_def)
  then show ?thesis
    by (simp add: heap_extend_def heap_blk_new_heap_init heap_blk_insert_free_empty)
qed

lemma texmem_init_ok:
  assumes "fst mapped \<noteq> 0"
  shows "\<exists>s'. texmem_init mt msz mapped s = Inr s'
           \<and> tm_freelist s' = Some 0 \<and> tm_alloclist s' = None \<and> tm_used s' = 0
           \<and> blk s' 0 = region_block (main_type_of mt) (fst mapped) msz
           \<and> tm_main_type s' = main_type_of mt
           \<and> tm_main s' = fst mapped \<and> tm_main_size s' = msz
           \<and> (\<forall>i. 0 < i \<and> i < TM_MAX_BLOCKS \<longrightarrow> blk_type (blk s' i) = -1)"
  using assms
  by (simp add: texmem_init_def Let_def heap_extend_heap_init)
     (simp add: heap_init_def set_defs region_block_def main_type_of_def)

lemma texmem_init_fail:
  "fst mapped = 0 \<Longrightarrow> texmem_init mt msz mapped s = Inl AssertionFailed"
  by (simp add: texmem_init_def)

lemma heap_inv_init:
  assumes "texmem_init mt msz mapped s0 = Inr s"
  shows "heap_inv s"
proof -
  from assms have nz: "fst mapped \<noteq> 0"
    by (auto simp: texmem_init_def split: if_splits)
  from texmem_init_ok[OF nz, of mt msz s0] assms have s:
    "tm_freelist s = Some 0" "tm_alloclist s = None" "tm_used s = 0"
    "blk s 0 = region_block (main_type_of mt) (fst mapped) msz"
    "tm_main_type s = main_type_of mt"
    by auto
  then have "lists_ok s [0] []"
    by (auto simp: lists_ok_def region_block_def main_type_of_def TM_TYPE_VRAM_def TM_TYPE_RAM_def)
  with s have "lists_ok s [0] [] \<and> tm_used s = sum_list (map (\<lambda>i. blk_size (blk s i)) [])"
    by simp
  moreover from s have "tm_main_type s = TM_TYPE_VRAM \<or> tm_main_type s = TM_TYPE_RAM"
    by (simp add: main_type_of_def)
  ultimately show ?thesis unfolding heap_inv_def by blast
qed

lemma sum_list_map_cong_size:
  "\<forall>i\<in>set xs. blk_size (f i) = blk_size (g i) \<Longrightarrow>
   sum_list (map (\<lambda>i. blk_size (f i)) xs) = sum_list (map (\<lambda>i. blk_size (g i)) xs)"
  by (induction xs) auto

lemma heap_inv_alloc:
  assumes inv: "heap_inv s" and call: "texmem_alloc sz s = Some (a, s')"
  shows "heap_inv s'"
proof (cases "sz = 0")
  case True
  with call inv show ?thesis by (simp add: texmem_alloc_def)
next
  case False
  from inv obtain fs as where ok: "lists_ok s fs as"
    and used: "tm_used s = sum_list (map (\<lambda>i. blk_size (blk s i)) as)"
    and mt: "tm_main_type s = TM_TYPE_VRAM \<or> tm_main_type s = TM_TYPE_RAM"
    by (auto simp: heap_inv_def)
  let ?sz = "if sz < TM_ALIGNMENT then TM_ALIGNMENT else sz"
  from heap_blk_alloc_ok[OF ok, of "tm_main_type s" ?sz TM_ALIGNMENT] show ?thesis
  proof
    assume "heap_blk_alloc s (tm_main_type s) ?sz TM_ALIGNMENT = Some (None, s)"
    with call False have "s' = s" by (simp add: texmem_alloc_def heap_alloc_def)
    with inv show ?thesis by simp
  next
    assume "\<exists>c s' fs'. heap_blk_alloc s (tm_main_type s) ?sz TM_ALIGNMENT = Some (Some c, s')
             \<and> c \<in> set fs \<and> blk_fits (tm_main_type s) ?sz TM_ALIGNMENT (blk s c)
             \<and> lists_ok s' fs' (c # as)
             \<and> (\<forall>i\<in>set as. blk s' i = blk s i)
             \<and> tm_used s' = tm_used s + ?sz
             \<and> blk_size (blk s' c) = ?sz
             \<and> blk_base (blk s' c) = ALIGN (blk_base (blk s c)) TM_ALIGNMENT
             \<and> tm_main_type s' = tm_main_type s"
    then obtain c t fs' where t:
      "heap_blk_alloc s (tm_main_type s) ?sz TM_ALIGNMENT = Some (Some c, t)"
      "lists_ok t fs' (c # as)" "\<forall>i\<in>set as. blk t i = blk s i"
      "tm_used t = tm_used s + ?sz" "blk_size (blk t c) = ?sz"
      "tm_main_type t = tm_main_type s"
      by blast
    from call False t(1) have "s' = t" by (simp add: texmem_alloc_def heap_alloc_def)
    moreover from t(3) have "sum_list (map (\<lambda>i. blk_size (blk t i)) as)
         = sum_list (map (\<lambda>i. blk_size (blk s i)) as)"
      by (intro sum_list_map_cong_size) simp
    ultimately have "lists_ok s' fs' (c # as)
        \<and> tm_used s' = sum_list (map (\<lambda>i. blk_size (blk s' i)) (c # as))"
      using t used by simp
    moreover from \<open>s' = t\<close> t(6) mt
    have "tm_main_type s' = TM_TYPE_VRAM \<or> tm_main_type s' = TM_TYPE_RAM" by simp
    ultimately show ?thesis unfolding heap_inv_def by blast
  qed
qed

lemma heap_inv_free:
  assumes inv: "heap_inv s" and call: "texmem_free p s = Some s'"
  shows "heap_inv s'"
proof (cases "p = 0")
  case True
  with call inv show ?thesis by (simp add: texmem_free_def)
next
  case False
  from inv obtain fs as where ok: "lists_ok s fs as"
    and used: "tm_used s = sum_list (map (\<lambda>i. blk_size (blk s i)) as)"
    and mt: "tm_main_type s = TM_TYPE_VRAM \<or> tm_main_type s = TM_TYPE_RAM"
    by (auto simp: heap_inv_def)
  from call False have call': "heap_blk_free p s = Some s'"
    by (simp add: texmem_free_def heap_free_def)
  from heap_blk_free_ok[OF ok, of p] show ?thesis
  proof
    assume "(\<forall>i\<in>set as. blk_base (blk s i) \<noteq> p) \<and> heap_blk_free p s = Some s"
    with call' inv show ?thesis by simp
  next
    assume "\<exists>pre c post s' fs'. as = pre @ c # post
             \<and> (\<forall>i\<in>set pre. blk_base (blk s i) \<noteq> p) \<and> blk_base (blk s c) = p
             \<and> heap_blk_free p s = Some s'
             \<and> lists_ok s' fs' (pre @ post)
             \<and> (\<forall>i\<in>set (pre @ post). blk_size (blk s' i) = blk_size (blk s i)
                    \<and> blk_base (blk s' i) = blk_base (blk s i))
             \<and> tm_used s' = tm_used s - blk_size (blk s c)
             \<and> tm_main_type s' = tm_main_type s"
    then obtain pre c post t fs' where t: "as = pre @ c # post"
      "heap_blk_free p s = Some t" "lists_ok t fs' (pre @ post)"
      "\<forall>i\<in>set (pre @ post). blk_size (blk t i) = blk_size (blk s i)
                    \<and> blk_base (blk t i) = blk_base (blk s i)"
      "tm_used t = tm_used s - blk_size (blk s c)" "tm_main_type t = tm_main_type s"
      by blast
    from call' t(2) have eq: "s' = t" by simp
    from t(4) have "sum_list (map (\<lambda>i. blk_size (blk t i)) (pre @ post))
         = sum_list (map (\<lambda>i. blk_size (blk s i)) (pre @ post))"
      by (intro sum_list_map_cong_size) simp
    with used t(1,5) have "tm_used t = sum_list (map (\<lambda>i. blk_size (blk t i)) (pre @ post))"
      by simp
    with eq t(3) have "lists_ok s' fs' (pre @ post)
        \<and> tm_used s' = sum_list (map (\<lambda>i. blk_size (blk s' i)) (pre @ post))"
      by simp
    moreover from eq t(6) mt
    have "tm_main_type s' = TM_TYPE_VRAM \<or> tm_main_type s' = TM_TYPE_RAM" by simp
    ultimately show ?thesis unfolding heap_inv_def by blast
  qed
qed

lemma reachable_heap_inv: "reachable s \<Longrightarrow> heap_inv s"
  by (induction rule: reachable.induct) (auto intro: heap_inv_init heap_inv_alloc heap_inv_free)

subsection \<open>Rounding up\<close>

lemma ALIGN_pow2: "ALIGN x (2 ^ n) = (x + mask n) AND NOT (mask n)"
  by (simp add: ALIGN_def mask_eq_decr_exp)

lemma ALIGN_dvd: "2 ^ n dvd unat (ALIGN x (2 ^ n))"
  by (simp add: and_mask_dvd_nat ALIGN_pow2 bit_eq_iff bit_simps)

lemma ALIGN_8_dvd: "8 dvd unat (ALIGN x 8)"
  using ALIGN_dvd[of 3 x] by simp

subsection \<open>Running the code on concrete states\<close>

lemma demo_pool_upd:
  "i < length bs \<Longrightarrow> (demo_pool bs)(i := b) = demo_pool (bs[i := b])"
  by (auto simp: demo_pool_def fun_eq_iff)

lemma demo_pool_ext:
  "i = length bs \<Longrightarrow> i < TM_MAX_BLOCKS \<Longrightarrow> (demo_pool bs)(i := b) = demo_pool (bs @ [b])"
  by (auto simp: demo_pool_def fun_eq_iff nth_append)

lemma demo_pool_nth:
  "i < length bs \<Longrightarrow> demo_pool bs i = bs ! i"
  "length bs \<le> i \<Longrightarrow> i < TM_MAX_BLOCKS \<Longrightarrow> demo_pool bs i = mk_blk None (-1) 0 0 0"
  by (auto simp: demo_pool_def)

lemma demo_init:
  "texmem_init SCE_KERNEL_MEMBLOCK_TYPE_USER_CDRAM_RW 1024 (0x1000, 7) boot_state
     = Inr (demo_state 0 1 (Some 0) None [mk_blk None 1 0x1000 0 1024])"
  apply (simp add: texmem_init_def Let_def heap_extend_heap_init)
  apply (simp add: heap_init_def set_defs boot_state_def demo_state_def blk_upd_def TM_TYPE_VRAM_def TM_TYPE_RAM_def)
  apply (auto simp: fun_eq_iff demo_pool_def mk_blk_def)
  done

lemma list_update_numeral [simp]:
  "(x # xs)[numeral k := y] = x # xs[pred_numeral k := y]"
  by (simp add: numeral_eq_Suc)

lemmas run_simps =
  texmem_alloc_def texmem_free_def heap_alloc_def heap_free_def heap_blk_alloc_def
  heap_blk_alloc_scan.simps blk_fits_def blk_skip_def ALIGN_def heap_blk_take_def
  take_descriptors_def heap_blk_new_def heap_blk_new_from.simps carve_skip_def
  carve_unused_def unlink_push_def heap_blk_release_def
  heap_blk_free_def free_scan.simps free_unlink_def heap_blk_insert_free_def
  insert_free_scan.simps insert_link_def merge_curr_def merge_prev_def heap_blk_mergeable_def
  set_defs blk_upd_def Let_def
  TM_MAX_BLOCKS_def TM_ALIGNMENT_def
  demo_state_def demo_pool_upd demo_pool_ext demo_pool_nth mk_blk_def

lemma demo_alloc_9:
  "texmem_alloc 9 (demo_state 0 1 (Some 0) None [mk_blk None 1 0x1000 0 1024])
     = Some (0x1000, demo_state 9 2 (Some 1) (Some 0)
                       [mk_blk None 1 0x1000 0 9, mk_blk None 1 0x1009 9 1015])"
  by (simp add: run_simps)

subsection \<open>The claims\<close>

lemma find_first:
  "\<forall>i\<in>set pre. \<not> P i \<Longrightarrow> P c \<Longrightarrow> find P (pre @ c # post) = Some c"
  by (induction pre) auto

lemma find_None_all: "find P xs = None \<longleftrightarrow> (\<forall>i\<in>set xs. \<not> P i)"
  by (induction xs) auto

text \<open>The search of heap_blk_alloc is find over the free list.\<close>

lemma heap_blk_alloc_find:
  assumes fl: "path (tm_blockpool s) (tm_freelist s) fs None"
  shows "(find (\<lambda>i. blk_fits ty sz al (blk s i)) fs = None
            \<and> heap_blk_alloc s ty sz al = Some (None, s))
       \<or> (\<exists>pre c post. fs = pre @ c # post
              \<and> find (\<lambda>i. blk_fits ty sz al (blk s i)) fs = Some c
              \<and> heap_blk_alloc s ty sz al
                   = heap_blk_take s sz (blk_skip (blk s c) al) (last_ptr None pre) c)"
proof -
  from heap_blk_alloc_scan_path[OF fl, of ty sz al None] show ?thesis
  proof
    assume "(\<forall>i\<in>set fs. \<not> blk_fits ty sz al (blk s i))
        \<and> heap_blk_alloc_scan s ty sz al None (tm_freelist s) = Some (None, s)"
    then show ?thesis by (simp add: heap_blk_alloc_def find_None_all)
  next
    assume "\<exists>pre' c post'. fs = pre' @ c # post'
        \<and> (\<forall>i\<in>set pre'. \<not> blk_fits ty sz al (blk s i))
        \<and> blk_fits ty sz al (blk s c)
        \<and> heap_blk_alloc_scan s ty sz al None (tm_freelist s)
            = heap_blk_take s sz (blk_skip (blk s c) al) (last_ptr None pre') c"
    then obtain pre c post where h: "fs = pre @ c # post"
      "\<forall>i\<in>set pre. \<not> blk_fits ty sz al (blk s i)" "blk_fits ty sz al (blk s c)"
      "heap_blk_alloc_scan s ty sz al None (tm_freelist s)
            = heap_blk_take s sz (blk_skip (blk s c) al) (last_ptr None pre) c"
      by blast
    from h(2,3) have "find (\<lambda>i. blk_fits ty sz al (blk s i)) (pre @ c # post) = Some c"
      by (intro find_first) simp_all
    with h(1,4) have "fs = pre @ c # post
              \<and> find (\<lambda>i. blk_fits ty sz al (blk s i)) fs = Some c
              \<and> heap_blk_alloc s ty sz al
                   = heap_blk_take s sz (blk_skip (blk s c) al) (last_ptr None pre) c"
      by (simp add: heap_blk_alloc_def)
    then show ?thesis by blast
  qed
qed

text \<open>
  Claim C1.  The search has settled on a block \<open>c\<close> of the free list (the first one
  that passes the test of line 100), and the split of \<open>c\<close> needs more descriptors
  (one for a leading skip block, one for a trailing remainder) than the pool has
  slots of type \<open>-1\<close>.  Then \<open>heap_blk_alloc\<close> returns \<open>NULL\<close>, \<open>heap_alloc\<close> returns
  the null address, and the state after the call is the state before it: both lists,
  the counter and every slot of the pool.  A slot taken for the skip block before the
  second acquisition fails is given back.
\<close>

theorem alloc_pool_exhausted_unchanged:
  assumes "path (tm_blockpool s) (tm_freelist s) fs None"
    and "find (\<lambda>i. blk_fits ty sz al (blk s i)) fs = Some c"
    and "card (free_slots s) < slots_needed sz (blk_skip (blk s c) al) (blk s c)"
  shows "heap_blk_alloc s ty sz al = Some (None, s) \<and> heap_alloc s ty sz al = Some (0, s)"
proof -
  from heap_blk_alloc_find[OF assms(1), of ty sz al] assms(2)
  obtain pre where "heap_blk_alloc s ty sz al
      = heap_blk_take s sz (blk_skip (blk s c) al) (last_ptr None pre) c"
    by auto
  moreover from assms(3) have "take_descriptors s sz (blk_skip (blk s c) al) c = (None, s)"
    by (rule take_descriptors_fail)
  ultimately have "heap_blk_alloc s ty sz al = Some (None, s)"
    by (simp add: heap_blk_take_def)
  then show ?thesis by (simp add: heap_alloc_def)
qed

lemma free_slots_full_state: "free_slots full_state = {}"
  by (auto simp: free_slots_def full_state_def full_pool_def mk_blk_def)

theorem alloc_pool_exhausted_unchanged_witness:
  "path (tm_blockpool full_state) (tm_freelist full_state) [2047] None
   \<and> find (\<lambda>i. blk_fits 1 8 8 (blk full_state i)) [2047] = Some 2047
   \<and> card (free_slots full_state)
        < slots_needed 8 (blk_skip (blk full_state 2047) 8) (blk full_state 2047)
   \<and> heap_blk_alloc full_state 1 8 8 = Some (None, full_state)
   \<and> heap_alloc full_state 1 8 8 = Some (0, full_state)"
proof -
  have p: "path (tm_blockpool full_state) (tm_freelist full_state) [2047] None"
    by (simp add: full_state_def full_pool_def mk_blk_def)
  have b: "blk full_state 2047 = mk_blk None 1 0x4FF8 16376 49160"
    by (simp add: full_state_def full_pool_def)
  have f: "find (\<lambda>i. blk_fits 1 8 8 (blk full_state i)) [2047] = Some 2047"
    by (simp add: b blk_fits_def blk_skip_def ALIGN_def mk_blk_def)
  have c: "card (free_slots full_state)
        < slots_needed 8 (blk_skip (blk full_state 2047) 8) (blk full_state 2047)"
    by (simp add: free_slots_full_state b slots_needed_def blk_skip_def ALIGN_def mk_blk_def)
  from alloc_pool_exhausted_unchanged[OF p f c] p f c show ?thesis by simp
qed

lemma reachable_lists_ok: "reachable s \<Longrightarrow> \<exists>fs as. lists_ok s fs as"
  using reachable_heap_inv[of s] unfolding heap_inv_def by blast

lemma heap_blk_free_unmatched:
  assumes "path (tm_blockpool s) (tm_alloclist s) as None"
    and "\<forall>i\<in>set as. blk_base (blk s i) \<noteq> ptr"
  shows "heap_blk_free ptr s = Some s"
proof -
  from free_scan_path[OF assms(1), of ptr None] obtain pre post where
    sp: "as = pre @ post"
    and scan: "free_scan s ptr None (tm_alloclist s) = Some (last_ptr None pre, ptr_of post)"
    and hit: "\<forall>x xs. post = x # xs \<longrightarrow> blk_base (blk s x) = ptr"
    by blast
  have "post = []"
  proof (cases post)
    case (Cons x xs)
    with hit sp assms(2) show ?thesis by auto
  qed simp
  with scan show ?thesis by (simp add: heap_blk_free_def)
qed

text \<open>
  What \<open>texmem_free\<close> leaves alone.  In a state the program can be in, \<open>texmem_free\<close>
  with the null address returns at once, and with an address that is the base of no
  block of the allocated list it walks the list to its end and returns; in both cases
  the state is the one before the call.  A second \<open>texmem_free\<close> of an address just
  released is such a call when the bases on the allocated list are pairwise
  different, and only then, as a run further on shows.
\<close>

lemma free_no_match_unchanged:
  assumes "reachable s"
  shows "texmem_free 0 s = Some s
       \<and> (\<exists>as. path (tm_blockpool s) (tm_alloclist s) as None
             \<and> (\<forall>ptr. (\<forall>i\<in>set as. blk_base (blk s i) \<noteq> ptr) \<longrightarrow> texmem_free ptr s = Some s)
             \<and> (\<forall>ptr s1. distinct (map (\<lambda>i. blk_base (blk s i)) as)
                    \<longrightarrow> texmem_free ptr s = Some s1 \<longrightarrow> texmem_free ptr s1 = Some s1))"
proof -
  from reachable_lists_ok[OF assms] obtain fs as where ok: "lists_ok s fs as" by blast
  then have al: "path (tm_blockpool s) (tm_alloclist s) as None"
    by (rule lists_ok_alloc_path)
  have noop: "\<forall>ptr. (\<forall>i\<in>set as. blk_base (blk s i) \<noteq> ptr) \<longrightarrow> texmem_free ptr s = Some s"
    using heap_blk_free_unmatched[OF al] by (simp add: texmem_free_def heap_free_def)
  have twice: "\<forall>ptr s1. distinct (map (\<lambda>i. blk_base (blk s i)) as)
                    \<longrightarrow> texmem_free ptr s = Some s1 \<longrightarrow> texmem_free ptr s1 = Some s1"
  proof (intro allI impI)
    fix ptr s1
    assume dist: "distinct (map (\<lambda>i. blk_base (blk s i)) as)"
      and call: "texmem_free ptr s = Some s1"
    show "texmem_free ptr s1 = Some s1"
    proof (cases "ptr = 0")
      case True
      then show ?thesis by (simp add: texmem_free_def)
    next
      case False
      with call have call': "heap_blk_free ptr s = Some s1"
        by (simp add: texmem_free_def heap_free_def)
      from heap_blk_free_ok[OF ok, of ptr] show ?thesis
      proof
        assume "(\<forall>i\<in>set as. blk_base (blk s i) \<noteq> ptr) \<and> heap_blk_free ptr s = Some s"
        with call' call show ?thesis by simp
      next
        assume "\<exists>pre c post s' fs'. as = pre @ c # post
             \<and> (\<forall>i\<in>set pre. blk_base (blk s i) \<noteq> ptr) \<and> blk_base (blk s c) = ptr
             \<and> heap_blk_free ptr s = Some s'
             \<and> lists_ok s' fs' (pre @ post)
             \<and> (\<forall>i\<in>set (pre @ post). blk_size (blk s' i) = blk_size (blk s i)
                    \<and> blk_base (blk s' i) = blk_base (blk s i))
             \<and> tm_used s' = tm_used s - blk_size (blk s c)
             \<and> tm_main_type s' = tm_main_type s"
        then obtain pre c post t fs' where t: "as = pre @ c # post"
          "blk_base (blk s c) = ptr" "heap_blk_free ptr s = Some t"
          "lists_ok t fs' (pre @ post)"
          "\<forall>i\<in>set (pre @ post). blk_base (blk t i) = blk_base (blk s i)"
          by blast
        from call' t(3) have eq: "s1 = t" by simp
        from dist t(1,2) have "\<forall>i\<in>set (pre @ post). blk_base (blk s i) \<noteq> ptr"
          by (auto simp: image_iff)
        with t(5) have "\<forall>i\<in>set (pre @ post). blk_base (blk t i) \<noteq> ptr" by simp
        from heap_blk_free_unmatched[OF lists_ok_alloc_path[OF t(4)] this] eq False
        show ?thesis by (simp add: texmem_free_def heap_free_def)
      qed
    qed
  qed
  have "texmem_free 0 s = Some s" by (simp add: texmem_free_def)
  moreover from al noop twice have "\<exists>as. path (tm_blockpool s) (tm_alloclist s) as None
             \<and> (\<forall>ptr. (\<forall>i\<in>set as. blk_base (blk s i) \<noteq> ptr) \<longrightarrow> texmem_free ptr s = Some s)
             \<and> (\<forall>ptr s1. distinct (map (\<lambda>i. blk_base (blk s i)) as)
                    \<longrightarrow> texmem_free ptr s = Some s1 \<longrightarrow> texmem_free ptr s1 = Some s1)"
    by blast
  ultimately show ?thesis by (rule conjI)
qed

lemma unat_sum_list_word:
  fixes f :: "'a \<Rightarrow> u32"
  shows "unat (sum_list (map f xs)) = sum_list (map (\<lambda>x. unat (f x)) xs) mod 2 ^ 32"
proof (induction xs)
  case Nil
  show ?case by simp
next
  case (Cons x xs)
  have "unat (f x + sum_list (map f xs)) = (unat (f x) + unat (sum_list (map f xs))) mod 2 ^ 32"
    by (simp add: unat_word_ariths)
  also have "\<dots> = (unat (f x) + sum_list (map (\<lambda>x. unat (f x)) xs) mod 2 ^ 32) mod 2 ^ 32"
    by (simp only: Cons.IH)
  also have "\<dots> = (unat (f x) + sum_list (map (\<lambda>x. unat (f x)) xs)) mod 2 ^ 32"
    by (rule mod_add_right_eq)
  finally show ?case by simp
qed

text \<open>
  The counter as a 32-bit word.  In every state reached from \<open>texmem_init\<close> by calls of
  \<open>texmem_alloc\<close> and \<open>texmem_free\<close>, the allocated list is a chain that ends in \<open>NULL\<close>
  and the value of \<open>texmem_memused\<close> is the sum, taken in \<open>uint32_t\<close>, of the \<open>size\<close>
  fields along it.  It is the sum of the sizes as numbers when that is below \<open>2^32\<close>,
  and only then, as a run further on shows.
\<close>

lemma used_is_word_sum_of_allocated:
  assumes "reachable s"
  shows "\<exists>as. path (tm_blockpool s) (tm_alloclist s) as None
          \<and> texmem_memused s = sum_list (map (\<lambda>i. blk_size (blk s i)) as)
          \<and> (sum_list (map (\<lambda>i. unat (blk_size (blk s i))) as) < 2 ^ 32
               \<longrightarrow> unat (texmem_memused s) = sum_list (map (\<lambda>i. unat (blk_size (blk s i))) as))"
proof -
  from reachable_heap_inv[OF assms] obtain fs as where ok: "lists_ok s fs as"
    and used: "tm_used s = sum_list (map (\<lambda>i. blk_size (blk s i)) as)"
    by (auto simp: heap_inv_def)
  from used have "unat (tm_used s) = sum_list (map (\<lambda>i. unat (blk_size (blk s i))) as) mod 2 ^ 32"
    by (simp add: unat_sum_list_word)
  with used lists_ok_alloc_path[OF ok] show ?thesis
    by (auto simp: texmem_memused_def)
qed

lemma heap_alloc_nonnull:
  assumes ok: "lists_ok s fs as"
    and call: "heap_alloc s ty sz al = Some (a, s')" and nz: "a \<noteq> 0"
  shows "\<exists>c\<in>set fs. blk_fits ty sz al (blk s c)
           \<and> heap_blk_alloc s ty sz al = Some (Some c, s')
           \<and> tm_alloclist s' = Some c
           \<and> blk_base (blk s' c) = a
           \<and> a = ALIGN (blk_base (blk s c)) al
           \<and> blk_size (blk s' c) = sz
           \<and> tm_used s' = tm_used s + sz"
proof -
  from heap_blk_alloc_ok[OF ok, of ty sz al] show ?thesis
  proof
    assume "heap_blk_alloc s ty sz al = Some (None, s)"
    with call nz show ?thesis by (simp add: heap_alloc_def)
  next
    assume "\<exists>c s' fs'. heap_blk_alloc s ty sz al = Some (Some c, s')
             \<and> c \<in> set fs \<and> blk_fits ty sz al (blk s c)
             \<and> lists_ok s' fs' (c # as)
             \<and> (\<forall>i\<in>set as. blk s' i = blk s i)
             \<and> tm_used s' = tm_used s + sz
             \<and> blk_size (blk s' c) = sz
             \<and> blk_base (blk s' c) = ALIGN (blk_base (blk s c)) al
             \<and> tm_main_type s' = tm_main_type s"
    then obtain c t fs' where t: "heap_blk_alloc s ty sz al = Some (Some c, t)"
      "c \<in> set fs" "blk_fits ty sz al (blk s c)" "lists_ok t fs' (c # as)"
      "tm_used t = tm_used s + sz" "blk_size (blk t c) = sz"
      "blk_base (blk t c) = ALIGN (blk_base (blk s c)) al"
      by blast
    from call t(1) have eq: "s' = t" "a = blk_base (blk t c)"
      by (auto simp: heap_alloc_def)
    from t(4) have "tm_alloclist t = Some c"
      by (simp add: lists_ok_def)
    with t eq show ?thesis by auto
  qed
qed

text \<open>
  Claim C4.  What \<open>heap_alloc\<close> returns, when it is not the null address, is the base of
  a block of the free list rounded up by \<open>ALIGN\<close> to the alignment it was called with:
  the old base plus the \<open>skip\<close> of line 99.  For an alignment that is a power of two the
  address is a multiple of it.  \<open>texmem_alloc\<close> always passes \<open>TM_ALIGNMENT\<close>, so every
  address it returns is a multiple of 8.
\<close>

theorem alloc_address_aligned:
  assumes "reachable s"
  shows "(\<forall>ty sz n a s'. heap_alloc s ty sz (2 ^ n) = Some (a, s') \<and> a \<noteq> 0
             \<longrightarrow> 2 ^ n dvd unat a
                 \<and> (\<exists>c. tm_alloclist s' = Some c \<and> blk_base (blk s' c) = a
                        \<and> a = blk_base (blk s c) + blk_skip (blk s c) (2 ^ n)))
       \<and> (\<forall>sz a s'. texmem_alloc sz s = Some (a, s') \<and> a \<noteq> 0
             \<longrightarrow> unat TM_ALIGNMENT dvd unat a)"
proof -
  from reachable_lists_ok[OF assms] obtain fs as where ok: "lists_ok s fs as" by blast
  have engine: "\<forall>ty sz n a s'. heap_alloc s ty sz (2 ^ n) = Some (a, s') \<and> a \<noteq> 0
             \<longrightarrow> 2 ^ n dvd unat a
                 \<and> (\<exists>c. tm_alloclist s' = Some c \<and> blk_base (blk s' c) = a
                        \<and> a = blk_base (blk s c) + blk_skip (blk s c) (2 ^ n))"
  proof (intro allI impI)
    fix ty sz n a s'
    assume h: "heap_alloc s ty sz (2 ^ n) = Some (a, s') \<and> a \<noteq> 0"
    from heap_alloc_nonnull[OF ok, of ty sz "2 ^ n" a s'] h obtain c where
      c: "tm_alloclist s' = Some c" "blk_base (blk s' c) = a"
         "a = ALIGN (blk_base (blk s c)) (2 ^ n)"
      by blast
    from c(3) have "2 ^ n dvd unat a" by (simp add: ALIGN_dvd)
    moreover from c(3) have "a = blk_base (blk s c) + blk_skip (blk s c) (2 ^ n)"
      by (simp add: blk_skip_def)
    ultimately show "2 ^ n dvd unat a
                 \<and> (\<exists>c. tm_alloclist s' = Some c \<and> blk_base (blk s' c) = a
                        \<and> a = blk_base (blk s c) + blk_skip (blk s c) (2 ^ n))"
      using c(1,2) by blast
  qed
  have api: "\<forall>sz a s'. texmem_alloc sz s = Some (a, s') \<and> a \<noteq> 0
             \<longrightarrow> unat TM_ALIGNMENT dvd unat a"
  proof (intro allI impI)
    fix sz a s'
    assume h: "texmem_alloc sz s = Some (a, s') \<and> a \<noteq> 0"
    then have "sz \<noteq> 0" by (auto simp: texmem_alloc_def split: if_splits)
    with h have "heap_alloc s (tm_main_type s) (if sz < TM_ALIGNMENT then TM_ALIGNMENT else sz) (2 ^ 3)
        = Some (a, s')"
      by (simp add: texmem_alloc_def TM_ALIGNMENT_def)
    with engine h have "2 ^ 3 dvd unat a" by blast
    then show "unat TM_ALIGNMENT dvd unat a" by (simp add: TM_ALIGNMENT_def)
  qed
  from engine api show ?thesis by (rule conjI)
qed

text \<open>
  Claim C5, as amended.  For a request that is not zero, \<open>texmem_alloc\<close> raises a size
  below \<open>TM_ALIGNMENT\<close> to \<open>TM_ALIGNMENT\<close> and passes any other size on as it is.  When
  the call returns an address, the block put on the allocated list has that size, and
  the counter has grown by it.
\<close>

theorem alloc_size_clamped:
  assumes "reachable s" and "sz \<noteq> 0"
    and "texmem_alloc sz s = Some (a, s')" and "a \<noteq> 0"
  shows "tm_used s' = tm_used s + max sz TM_ALIGNMENT
       \<and> (\<exists>c. tm_alloclist s' = Some c \<and> blk_base (blk s' c) = a
              \<and> blk_size (blk s' c) = max sz TM_ALIGNMENT)"
proof -
  from reachable_lists_ok[OF assms(1)] obtain fs as where ok: "lists_ok s fs as" by blast
  have m: "(if sz < TM_ALIGNMENT then TM_ALIGNMENT else sz) = max sz TM_ALIGNMENT"
    by (auto simp: max_def)
  from assms(2,3) have "heap_alloc s (tm_main_type s) (max sz TM_ALIGNMENT) TM_ALIGNMENT = Some (a, s')"
    by (simp add: texmem_alloc_def m)
  from heap_alloc_nonnull[OF ok this assms(4)] show ?thesis by blast
qed

text \<open>
  The order of the search.  \<open>heap_blk_alloc\<close> walks the free list from its head and
  settles on the first block that passes the test of line 100, whatever blocks follow
  it: when no block passes, it returns \<open>NULL\<close>; when \<open>c\<close> is the first that passes, it
  returns \<open>c\<close> (or \<open>NULL\<close>, the state untouched, if the pool has no descriptor for the
  split).  The test is on \<open>uint32_t\<close> quantities; it is the comparison of the numbers
  whenever padding plus size is below \<open>2^32\<close>.
\<close>

lemma first_fit_order:
  assumes "reachable s"
  shows "\<exists>fs. path (tm_blockpool s) (tm_freelist s) fs None
          \<and> (\<forall>ty sz al.
                (find (\<lambda>i. blk_fits ty sz al (blk s i)) fs = None
                   \<longrightarrow> heap_blk_alloc s ty sz al = Some (None, s))
              \<and> (\<forall>c. find (\<lambda>i. blk_fits ty sz al (blk s i)) fs = Some c
                   \<longrightarrow> heap_blk_alloc s ty sz al = Some (None, s)
                       \<or> (\<exists>s'. heap_blk_alloc s ty sz al = Some (Some c, s')))
              \<and> (\<forall>b. unat (blk_skip b al) + unat sz < 2 ^ 32
                   \<longrightarrow> blk_fits ty sz al b
                        = (blk_type b = ty \<and> unat (blk_skip b al) + unat sz \<le> unat (blk_size b))))"
proof -
  from reachable_lists_ok[OF assms] obtain fs as where ok: "lists_ok s fs as" by blast
  then have fl: "path (tm_blockpool s) (tm_freelist s) fs None"
    by (rule lists_ok_free_path)
  have "\<forall>ty sz al.
                (find (\<lambda>i. blk_fits ty sz al (blk s i)) fs = None
                   \<longrightarrow> heap_blk_alloc s ty sz al = Some (None, s))
              \<and> (\<forall>c. find (\<lambda>i. blk_fits ty sz al (blk s i)) fs = Some c
                   \<longrightarrow> heap_blk_alloc s ty sz al = Some (None, s)
                       \<or> (\<exists>s'. heap_blk_alloc s ty sz al = Some (Some c, s')))
              \<and> (\<forall>b. unat (blk_skip b al) + unat sz < 2 ^ 32
                   \<longrightarrow> blk_fits ty sz al b
                        = (blk_type b = ty \<and> unat (blk_skip b al) + unat sz \<le> unat (blk_size b)))"
  proof (intro allI conjI impI)
    fix ty sz al
    assume "find (\<lambda>i. blk_fits ty sz al (blk s i)) fs = None"
    with heap_blk_alloc_find[OF fl, of ty sz al]
    show "heap_blk_alloc s ty sz al = Some (None, s)" by auto
  next
    fix ty sz al c
    assume f: "find (\<lambda>i. blk_fits ty sz al (blk s i)) fs = Some c"
    with heap_blk_alloc_find[OF fl, of ty sz al] obtain pre post where
      sp: "fs = pre @ c # post"
      and eq: "heap_blk_alloc s ty sz al
                 = heap_blk_take s sz (blk_skip (blk s c) al) (last_ptr None pre) c"
      by auto
    from ok sp have "lists_ok s (pre @ c # post) as" by simp
    from heap_blk_take_ok[OF this, of sz "blk_skip (blk s c) al"] eq
    show "heap_blk_alloc s ty sz al = Some (None, s)
           \<or> (\<exists>s'. heap_blk_alloc s ty sz al = Some (Some c, s'))"
      by auto
  next
    fix ty and sz al :: u32 and b :: tm_block
    assume "unat (blk_skip b al) + unat sz < 2 ^ 32"
    then have "unat (blk_skip b al + sz) = unat (blk_skip b al) + unat sz"
      by (simp add: unat_word_ariths)
    then show "blk_fits ty sz al b
                 = (blk_type b = ty \<and> unat (blk_skip b al) + unat sz \<le> unat (blk_size b))"
      by (simp add: blk_fits_def word_le_nat_alt)
  qed
  with fl show ?thesis by blast
qed

subsection \<open>Some runs, step by step\<close>

lemmas st_defs = st_init_def st_a_def st_b_def st_c_def st_d_def st_e_def st_f_def st_j_def st_k_def st_g_def st_h_def st_i_def st_w1_def st_w2_def st_w3_def st_w4_def st_w5_def st_w6_def st_w7_def

lemma step_init:
  "texmem_init SCE_KERNEL_MEMBLOCK_TYPE_USER_CDRAM_RW 1024 (0x1000, 7) boot_state = Inr st_init"
  using demo_init by (simp add: st_init_def)

lemma step_a: "texmem_alloc 9 st_init = Some (0x1000, st_a)"
  by (simp add: st_init_def st_a_def run_simps; rule arg_cong[where f = demo_pool]; simp)

lemma step_b: "texmem_alloc 0xFFFFFFFF st_a = Some (0x1010, st_b)"
  by (simp add: st_a_def st_b_def run_simps; rule arg_cong[where f = demo_pool]; simp)

lemma step_c: "texmem_free 0x1000 st_b = Some st_c"
  by (simp add: st_b_def st_c_def run_simps; rule arg_cong[where f = demo_pool]; simp)

lemma step_d: "texmem_free 0x1010 st_c = Some st_d"
  by (simp add: st_c_def st_d_def run_simps; rule arg_cong[where f = demo_pool]; simp)

lemma step_e: "texmem_alloc 0xFFFFFFF9 st_a = Some (0x1010, st_e)"
  by (simp add: st_a_def st_e_def run_simps; rule arg_cong[where f = demo_pool]; simp)

lemma step_f: "texmem_alloc 16 st_e = Some (0x1010, st_f)"
  by (simp add: st_e_def st_f_def run_simps; rule arg_cong[where f = demo_pool]; simp)



lemma step_g: "texmem_alloc 16 st_a = Some (0x1010, st_g)"
  by (simp add: st_a_def st_g_def run_simps; rule arg_cong[where f = demo_pool]; simp)

lemma step_h: "texmem_free 0x1000 st_a = Some st_h"
  by (simp add: st_a_def st_h_def run_simps; rule arg_cong[where f = demo_pool]; simp)

lemma step_i: "texmem_alloc 3 st_init = Some (0x1000, st_i)"
  by (simp add: st_init_def st_i_def run_simps; rule arg_cong[where f = demo_pool]; simp)

lemma step_w1: "texmem_alloc 64 st_init = Some (0x1000, st_w1)"
  by (simp add: st_init_def st_w1_def run_simps; rule arg_cong[where f = demo_pool]; simp)

lemma step_w2: "texmem_alloc 8 st_w1 = Some (0x1040, st_w2)"
  by (simp add: st_w1_def st_w2_def run_simps; rule arg_cong[where f = demo_pool]; simp)

lemma step_w3: "texmem_alloc 16 st_w2 = Some (0x1048, st_w3)"
  by (simp add: st_w2_def st_w3_def run_simps; rule arg_cong[where f = demo_pool]; simp)

lemma step_w4: "texmem_alloc 8 st_w3 = Some (0x1058, st_w4)"
  by (simp add: st_w3_def st_w4_def run_simps; rule arg_cong[where f = demo_pool]; simp)

lemma step_w5: "texmem_free 0x1000 st_w4 = Some st_w5"
  by (simp add: st_w4_def st_w5_def run_simps; rule arg_cong[where f = demo_pool]; simp)

lemma step_w6: "texmem_free 0x1048 st_w5 = Some st_w6"
  by (simp add: st_w5_def st_w6_def run_simps; rule arg_cong[where f = demo_pool]; simp)

lemma step_w7: "texmem_alloc 16 st_w6 = Some (0x1000, st_w7)"
  by (simp add: st_w6_def st_w7_def run_simps; rule arg_cong[where f = demo_pool]; simp)

subsection \<open>The theorems at work\<close>

lemma reachable_run:
  "reachable s \<Longrightarrow> run_calls cs s = Some (r, s') \<Longrightarrow> reachable s'"
proof (induction cs arbitrary: s r)
  case Nil
  then show ?case by simp
next
  case (Cons c cs)
  show ?case
  proof (cases c)
    case (Alloc n)
    with Cons.prems(2) obtain a t r' where
      "texmem_alloc n s = Some (a, t)" "run_calls cs t = Some (r', s')"
      by (auto split: option.splits)
    with Cons.prems(1) Cons.IH[of t r'] show ?thesis
      by (auto intro: reachable.alloc)
  next
    case (Free p)
    with Cons.prems(2) obtain t where
      "texmem_free p s = Some t" "run_calls cs t = Some (r, s')"
      by (auto split: option.splits)
    with Cons.prems(1) Cons.IH[of t r] show ?thesis
      by (auto intro: reachable.free)
  qed
qed

lemma reach_init: "reachable st_init"
  using step_init by (rule reachable.init)

lemma reach_a: "reachable st_a"
  using reach_init step_a by (rule reachable.alloc)

lemma reach_w6: "reachable st_w6"
proof -
  have "run_calls [Alloc 64, Alloc 8, Alloc 16, Alloc 8, Free 0x1000, Free 0x1048] st_init
          = Some ([0x1000, 0x1040, 0x1048, 0x1058], st_w6)"
    by (simp add: step_w1 step_w2 step_w3 step_w4 step_w5 step_w6)
  with reach_init show ?thesis by (rule reachable_run)
qed

lemma free_no_match_unchanged_example:
  "reachable st_a
   \<and> texmem_free 0 st_a = Some st_a
   \<and> path (tm_blockpool st_a) (tm_alloclist st_a) [0] None
   \<and> texmem_free 0x2000 st_a = Some st_a
   \<and> texmem_free 0x1000 st_a = Some st_h
   \<and> texmem_free 0x1000 st_h = Some st_h"
proof -
  have p: "path (tm_blockpool st_a) (tm_alloclist st_a) [0] None"
    by (simp add: st_a_def demo_state_def demo_pool_nth mk_blk_def)
  from free_no_match_unchanged[OF reach_a] obtain as where
    z: "texmem_free 0 st_a = Some st_a"
    and as: "path (tm_blockpool st_a) (tm_alloclist st_a) as None"
    and noop: "\<forall>ptr. (\<forall>i\<in>set as. blk_base (blk st_a i) \<noteq> ptr) \<longrightarrow> texmem_free ptr st_a = Some st_a"
    and twice: "\<forall>ptr s1. distinct (map (\<lambda>i. blk_base (blk st_a i)) as)
                    \<longrightarrow> texmem_free ptr st_a = Some s1 \<longrightarrow> texmem_free ptr s1 = Some s1"
    by blast
  from as p have eq: "as = [0]" by (rule path_unique)
  have b: "blk_base (blk st_a 0) = 0x1000"
    by (simp add: st_a_def demo_state_def demo_pool_nth mk_blk_def)
  from noop eq b have n: "texmem_free 0x2000 st_a = Some st_a" by simp
  from twice eq step_h have t: "texmem_free 0x1000 st_h = Some st_h" by simp
  from reach_a z p n step_h t show ?thesis by simp
qed

lemma used_is_word_sum_of_allocated_example:
  "reachable st_g
   \<and> path (tm_blockpool st_g) (tm_alloclist st_g) [1, 0] None
   \<and> texmem_memused st_g = blk_size (blk st_g 1) + blk_size (blk st_g 0)
   \<and> unat (texmem_memused st_g) = 25"
proof -
  have r: "reachable st_g" using reach_a step_g by (rule reachable.alloc)
  have p: "path (tm_blockpool st_g) (tm_alloclist st_g) [1, 0] None"
    by (simp add: st_g_def demo_state_def demo_pool_nth mk_blk_def)
  from used_is_word_sum_of_allocated[OF r] obtain as where
    as: "path (tm_blockpool st_g) (tm_alloclist st_g) as None"
    and sum: "texmem_memused st_g = sum_list (map (\<lambda>i. blk_size (blk st_g i)) as)"
    and ex: "sum_list (map (\<lambda>i. unat (blk_size (blk st_g i))) as) < 2 ^ 32
               \<longrightarrow> unat (texmem_memused st_g) = sum_list (map (\<lambda>i. unat (blk_size (blk st_g i))) as)"
    by blast
  from as p have eq: "as = [1, 0]" by (rule path_unique)
  have sz: "blk_size (blk st_g 1) = 16" "blk_size (blk st_g 0) = 9"
    by (simp_all add: st_g_def demo_state_def demo_pool_nth mk_blk_def)
  from sum eq have s: "texmem_memused st_g = blk_size (blk st_g 1) + blk_size (blk st_g 0)"
    by simp
  from ex eq sz have "unat (texmem_memused st_g) = 25" by simp
  with r p s show ?thesis by simp
qed

theorem alloc_address_aligned_witness:
  "reachable st_a
   \<and> texmem_alloc 16 st_a = Some (0x1010, st_g)
   \<and> unat TM_ALIGNMENT dvd unat (0x1010 :: u32)
   \<and> blk_base (blk st_a 1) = 0x1009
   \<and> blk_skip (blk st_a 1) TM_ALIGNMENT = 7"
proof -
  have nz: "(0x1010 :: u32) \<noteq> 0" by simp
  from alloc_address_aligned[OF reach_a] step_g nz
  have "unat TM_ALIGNMENT dvd unat (0x1010 :: u32)" by blast
  moreover have "blk_base (blk st_a 1) = 0x1009" "blk_skip (blk st_a 1) TM_ALIGNMENT = 7"
    by (simp_all add: st_a_def demo_state_def demo_pool_nth mk_blk_def blk_skip_def ALIGN_def
        TM_ALIGNMENT_def)
  ultimately show ?thesis using reach_a step_g by simp
qed

text \<open>
  Claim C5 as it stands fails: a request of 9 bytes makes a block of 9 bytes and adds 9
  to the counter, where 9 rounded up to a multiple of 8 is 16.
\<close>

theorem alloc_size_not_rounded_counterexample:
  "reachable st_init
   \<and> texmem_alloc 9 st_init = Some (0x1000, st_a)
   \<and> ALIGN 9 TM_ALIGNMENT = 16
   \<and> tm_used st_a = tm_used st_init + 9
   \<and> tm_used st_a \<noteq> tm_used st_init + ALIGN 9 TM_ALIGNMENT
   \<and> blk_size (blk st_a 0) = 9"
  using reach_init step_a
  by (simp add: st_a_def st_init_def demo_state_def demo_pool_nth mk_blk_def ALIGN_def
      TM_ALIGNMENT_def)

theorem alloc_size_clamped_witness:
  "reachable st_init \<and> (3 :: u32) \<noteq> 0
   \<and> texmem_alloc 3 st_init = Some (0x1000, st_i) \<and> (0x1000 :: u32) \<noteq> 0
   \<and> tm_used st_i = tm_used st_init + max 3 TM_ALIGNMENT
   \<and> max 3 TM_ALIGNMENT = 8
   \<and> blk_size (blk st_i 0) = 8"
proof -
  have nz: "(3 :: u32) \<noteq> 0" "(0x1000 :: u32) \<noteq> 0" by simp_all
  from alloc_size_clamped[OF reach_init nz(1) step_i nz(2)]
  have "tm_used st_i = tm_used st_init + max 3 TM_ALIGNMENT" by blast
  moreover have "max 3 TM_ALIGNMENT = 8" "blk_size (blk st_i 0) = 8"
    by (simp_all add: TM_ALIGNMENT_def st_i_def demo_state_def demo_pool_nth mk_blk_def)
  ultimately show ?thesis using reach_init step_i by simp
qed

lemma step_w7_blk: "heap_blk_alloc st_w6 1 16 8 = Some (Some 0, st_w7)"
  by (simp add: st_w6_def st_w7_def run_simps; rule arg_cong[where f = demo_pool]; simp)

lemma first_fit_order_example:
  "reachable st_w6
   \<and> path (tm_blockpool st_w6) (tm_freelist st_w6) [0, 2, 4] None
   \<and> find (\<lambda>i. blk_fits 1 16 8 (blk st_w6 i)) [0, 2, 4] = Some 0
   \<and> blk_size (blk st_w6 0) = 64
   \<and> blk_fits 1 16 8 (blk st_w6 2) \<and> blk_size (blk st_w6 2) = 16
   \<and> heap_blk_alloc st_w6 1 16 8 = Some (Some 0, st_w7)"
proof -
  have p: "path (tm_blockpool st_w6) (tm_freelist st_w6) [0, 2, 4] None"
    by (simp add: st_w6_def demo_state_def demo_pool_nth mk_blk_def)
  have b: "blk st_w6 0 = mk_blk (Some 2) 1 0x1000 0 64"
    "blk st_w6 2 = mk_blk (Some 4) 1 0x1048 72 16"
    by (simp_all add: st_w6_def demo_state_def demo_pool_nth)
  have f: "find (\<lambda>i. blk_fits 1 16 8 (blk st_w6 i)) [0, 2, 4] = Some 0"
    by (simp add: b blk_fits_def blk_skip_def ALIGN_def mk_blk_def)
  have t: "blk_fits 1 16 8 (blk st_w6 2)" "blk_size (blk st_w6 2) = 16"
    "blk_size (blk st_w6 0) = 64"
    by (simp_all add: b blk_fits_def blk_skip_def ALIGN_def mk_blk_def)
  from first_fit_order[OF reach_w6] obtain fs where
    fs: "path (tm_blockpool st_w6) (tm_freelist st_w6) fs None"
    and first: "\<forall>c. find (\<lambda>i. blk_fits 1 16 8 (blk st_w6 i)) fs = Some c
                   \<longrightarrow> heap_blk_alloc st_w6 1 16 8 = Some (None, st_w6)
                       \<or> (\<exists>s'. heap_blk_alloc st_w6 1 16 8 = Some (Some c, s'))"
    by blast
  from fs p have "fs = [0, 2, 4]" by (rule path_unique)
  with first f have "heap_blk_alloc st_w6 1 16 8 = Some (None, st_w6)
                       \<or> (\<exists>s'. heap_blk_alloc st_w6 1 16 8 = Some (Some 0, s'))"
    by simp
  with step_w7_blk reach_w6 p f t show ?thesis by simp
qed

subsection \<open>Initialisation, and where the code leaves the claims\<close>

text \<open>
  Claim C6 as it stands fails: with a mapping that failed (a null address from
  \<open>gpu_alloc_map\<close>) \<open>texmem_init\<close> does not come back to its caller with a failure; the
  run ends at \<open>assert(tm_main)\<close>.
\<close>

theorem texmem_init_null_mapping_counterexample:
  "texmem_init SCE_KERNEL_MEMBLOCK_TYPE_USER_CDRAM_RW 1024 (0, 0) boot_state = Inl AssertionFailed
   \<and> isl (texmem_init SCE_KERNEL_MEMBLOCK_TYPE_USER_CDRAM_RW 1024 (0, 0) boot_state)"
  by (simp add: texmem_init_fail)

text \<open>
  Claim C6, as amended.  When the mapping failed, \<open>texmem_init\<close> does not go on to set
  up the heap: it stops at the assertion.  When the mapping succeeded, it completes,
  and then the free list is one block for the whole region (its base the mapped
  address, its offset zero, its size the size asked for, its type the main type), the
  allocated list is empty and the counter is zero.
\<close>

theorem texmem_init_outcome:
  "(fst mapped = 0 \<longrightarrow> texmem_init mt msz mapped s = Inl AssertionFailed)
   \<and> (fst mapped \<noteq> 0 \<longrightarrow>
        (\<exists>s'. texmem_init mt msz mapped s = Inr s'
           \<and> (\<exists>b. path (tm_blockpool s') (tm_freelist s') [b] None
                  \<and> blk s' b = region_block (main_type_of mt) (fst mapped) msz)
           \<and> tm_alloclist s' = None \<and> texmem_memused s' = 0
           \<and> tm_main_type s' = main_type_of mt))"
proof (intro conjI impI)
  assume "fst mapped = 0"
  then show "texmem_init mt msz mapped s = Inl AssertionFailed"
    by (rule texmem_init_fail)
next
  assume "fst mapped \<noteq> 0"
  from texmem_init_ok[OF this, of mt msz s] obtain s' where s':
    "texmem_init mt msz mapped s = Inr s'"
    "tm_freelist s' = Some 0" "tm_alloclist s' = None" "tm_used s' = 0"
    "blk s' 0 = region_block (main_type_of mt) (fst mapped) msz"
    "tm_main_type s' = main_type_of mt"
    by blast
  from s'(2,5) have "path (tm_blockpool s') (tm_freelist s') [0] None"
    by (simp add: region_block_def)
  with s' show "\<exists>s'. texmem_init mt msz mapped s = Inr s'
           \<and> (\<exists>b. path (tm_blockpool s') (tm_freelist s') [b] None
                  \<and> blk s' b = region_block (main_type_of mt) (fst mapped) msz)
           \<and> tm_alloclist s' = None \<and> texmem_memused s' = 0
           \<and> tm_main_type s' = main_type_of mt"
    by (auto simp: texmem_memused_def)
qed

theorem texmem_init_outcome_witness:
  "texmem_init SCE_KERNEL_MEMBLOCK_TYPE_USER_RW 4096 (0, 0) boot_state = Inl AssertionFailed
   \<and> texmem_init SCE_KERNEL_MEMBLOCK_TYPE_USER_CDRAM_RW 1024 (0x1000, 7) boot_state = Inr st_init
   \<and> path (tm_blockpool st_init) (tm_freelist st_init) [0] None
   \<and> blk st_init 0 = region_block TM_TYPE_VRAM 0x1000 1024
   \<and> tm_alloclist st_init = None \<and> texmem_memused st_init = 0"
proof -
  from texmem_init_outcome[of "(0, 0)" SCE_KERNEL_MEMBLOCK_TYPE_USER_RW 4096 boot_state]
  have "texmem_init SCE_KERNEL_MEMBLOCK_TYPE_USER_RW 4096 (0, 0) boot_state = Inl AssertionFailed"
    by simp
  moreover have "path (tm_blockpool st_init) (tm_freelist st_init) [0] None"
    "blk st_init 0 = region_block TM_TYPE_VRAM 0x1000 1024"
    "tm_alloclist st_init = None" "texmem_memused st_init = 0"
    by (simp_all add: st_init_def demo_state_def demo_pool_nth mk_blk_def region_block_def
        TM_TYPE_VRAM_def texmem_memused_def)
  ultimately show ?thesis using step_init by simp
qed

text \<open>
  Claim C7.  The free list does not stay in strictly ascending order of base.  In a
  region of 1024 bytes at \<open>0x1000\<close>, \<open>texmem_alloc(9)\<close> leaves the free block at
  \<open>0x1009\<close>, seven bytes short of alignment.  For \<open>texmem_alloc(0xFFFFFFF9)\<close> the sum
  \<open>skip + size\<close> of line 100 is \<open>7 + 0xFFFFFFF9\<close>, which is \<open>0\<close> in \<open>uint32_t\<close>, so the
  block of 1015 bytes passes the test and the call returns \<open>0x1010\<close>.  The base of the
  remainder, \<open>curr->base + size\<close>, is \<open>0x1010 + 0xFFFFFFF9\<close>, in the 32-bit addresses of
  the target \<open>0x1009\<close> again: the skip block and the remainder block left on the free
  list have the same base.
\<close>

theorem free_list_order_broken:
  "texmem_init SCE_KERNEL_MEMBLOCK_TYPE_USER_CDRAM_RW 1024 (0x1000, 7) boot_state = Inr st_init
   \<and> run_calls [Alloc 9, Alloc 0xFFFFFFF9] st_init = Some ([0x1000, 0x1010], st_e)
   \<and> path (tm_blockpool st_e) (tm_freelist st_e) [2, 3] None
   \<and> map (\<lambda>i. blk_base (blk st_e i)) [2, 3] = [0x1009, 0x1009]"
proof -
  have "run_calls [Alloc 9, Alloc 0xFFFFFFF9] st_init = Some ([0x1000, 0x1010], st_e)"
    by (simp add: step_a step_e)
  moreover have "path (tm_blockpool st_e) (tm_freelist st_e) [2, 3] None"
    "map (\<lambda>i. blk_base (blk st_e i)) [2, 3] = [0x1009, 0x1009]"
    by (simp_all add: st_e_def demo_state_def demo_pool_nth mk_blk_def)
  ultimately show ?thesis using step_init by simp
qed

text \<open>
  Claim C10.  Blocks do not stay disjoint.  After the two calls above the remainder
  block, based at \<open>0x1009\<close> with 1015 bytes, covers the bytes just handed out;
  \<open>texmem_alloc(16)\<close> takes it and returns \<open>0x1010\<close> again: two live allocations have
  the same address.  The allocated list then holds a block of 16 bytes and a block of
  \<open>0xFFFFFFF9\<close> bytes, both based at \<open>0x1010\<close>.
\<close>

theorem live_blocks_overlap:
  "texmem_init SCE_KERNEL_MEMBLOCK_TYPE_USER_CDRAM_RW 1024 (0x1000, 7) boot_state = Inr st_init
   \<and> run_calls [Alloc 9, Alloc 0xFFFFFFF9, Alloc 16] st_init
        = Some ([0x1000, 0x1010, 0x1010], st_f)
   \<and> path (tm_blockpool st_f) (tm_alloclist st_f) [3, 1, 0] None
   \<and> blk_base (blk st_f 3) = 0x1010 \<and> blk_base (blk st_f 1) = 0x1010
   \<and> 4112 \<in> blk_range (blk st_f 3) \<inter> blk_range (blk st_f 1)"
proof -
  have "run_calls [Alloc 9, Alloc 0xFFFFFFF9, Alloc 16] st_init
          = Some ([0x1000, 0x1010, 0x1010], st_f)"
    by (simp add: step_a step_e step_f)
  moreover have "path (tm_blockpool st_f) (tm_alloclist st_f) [3, 1, 0] None"
    "blk_base (blk st_f 3) = 0x1010" "blk_base (blk st_f 1) = 0x1010"
    "4112 \<in> blk_range (blk st_f 3) \<inter> blk_range (blk st_f 1)"
    by (simp_all add: st_f_def demo_state_def demo_pool_nth mk_blk_def blk_range_def)
  ultimately show ?thesis using step_init by simp
qed

text \<open>
  Claim C2.  Freeing everything does not always bring back the single block.
  \<open>texmem_alloc(9)\<close> and \<open>texmem_alloc(0xFFFFFFFF)\<close> both return an address (the second
  through the wrapped sum of line 100: \<open>7 + 0xFFFFFFFF\<close> is \<open>6\<close>, and the remainder block
  it leaves is based at \<open>0x1010 + 0xFFFFFFFF\<close>, which is \<open>0x100F\<close> in 32-bit addresses);
  after both addresses are freed the allocated list is empty and the free list has
  three blocks.
\<close>

theorem free_all_not_coalesced:
  "texmem_init SCE_KERNEL_MEMBLOCK_TYPE_USER_CDRAM_RW 1024 (0x1000, 7) boot_state = Inr st_init
   \<and> run_calls [Alloc 9, Alloc 0xFFFFFFFF, Free 0x1000, Free 0x1010] st_init
        = Some ([0x1000, 0x1010], st_d)
   \<and> tm_alloclist st_d = None
   \<and> path (tm_blockpool st_d) (tm_freelist st_d) [0, 3, 1] None
   \<and> map (\<lambda>i. blk_size (blk st_d i)) [0, 3, 1] = [16, 1009, 0xFFFFFFFF]"
proof -
  have "run_calls [Alloc 9, Alloc 0xFFFFFFFF, Free 0x1000, Free 0x1010] st_init
          = Some ([0x1000, 0x1010], st_d)"
    by (simp add: step_a step_b step_c step_d)
  moreover have "tm_alloclist st_d = None"
    "path (tm_blockpool st_d) (tm_freelist st_d) [0, 3, 1] None"
    "map (\<lambda>i. blk_size (blk st_d i)) [0, 3, 1] = [16, 1009, 0xFFFFFFFF]"
    by (simp_all add: st_d_def demo_state_def demo_pool_nth mk_blk_def)
  ultimately show ?thesis using step_init by simp
qed

lemma step_b_blk: "heap_blk_alloc st_a 1 0xFFFFFFFF 8 = Some (Some 1, st_b)"
  by (simp add: st_a_def st_b_def run_simps; rule arg_cong[where f = demo_pool]; simp)

text \<open>
  Claim C8.  The search goes through the free list in order, but the block it takes
  need not be as large as the request and its padding.  After \<open>texmem_alloc(9)\<close> the
  one free block has 1015 bytes and needs a padding of 7.  For a request of
  \<open>0xFFFFFFFF\<close> bytes the sum \<open>skip + size\<close> of line 100 is \<open>6\<close> in \<open>uint32_t\<close>, the
  test passes, and \<open>heap_blk_alloc\<close> takes that block.
\<close>

theorem fit_test_wraps:
  "texmem_init SCE_KERNEL_MEMBLOCK_TYPE_USER_CDRAM_RW 1024 (0x1000, 7) boot_state = Inr st_init
   \<and> run_calls [Alloc 9] st_init = Some ([0x1000], st_a)
   \<and> path (tm_blockpool st_a) (tm_freelist st_a) [1] None
   \<and> blk_size (blk st_a 1) = 1015
   \<and> blk_skip (blk st_a 1) 8 = 7
   \<and> unat (blk_size (blk st_a 1)) < unat (blk_skip (blk st_a 1) 8) + unat (0xFFFFFFFF :: u32)
   \<and> heap_blk_alloc st_a 1 0xFFFFFFFF 8 = Some (Some 1, st_b)"
proof -
  have "run_calls [Alloc 9] st_init = Some ([0x1000], st_a)"
    by (simp add: step_a)
  moreover have "path (tm_blockpool st_a) (tm_freelist st_a) [1] None"
    by (simp add: st_a_def demo_state_def demo_pool_nth mk_blk_def)
  moreover have "blk_size (blk st_a 1) = 1015" "blk_skip (blk st_a 1) 8 = 7"
    by (simp_all add: st_a_def demo_state_def demo_pool_nth mk_blk_def blk_skip_def ALIGN_def)
  ultimately show ?thesis using step_init step_b_blk by simp
qed

text \<open>
  Claim C3.  The counter is not always the sum of the allocated sizes.  After
  \<open>texmem_alloc(9)\<close> and \<open>texmem_alloc(0xFFFFFFF9)\<close> (the second accepted through the
  wrapped sum of line 100) the allocated list holds a block of \<open>0xFFFFFFF9\<close> bytes and
  a block of 9 bytes; their sizes add up to \<open>4294967298\<close>, and \<open>texmem_memused\<close>, a
  \<open>uint32_t\<close> that line 167 has wrapped, returns \<open>2\<close>.
\<close>

theorem used_not_sum_of_allocated:
  "texmem_init SCE_KERNEL_MEMBLOCK_TYPE_USER_CDRAM_RW 1024 (0x1000, 7) boot_state = Inr st_init
   \<and> run_calls [Alloc 9, Alloc 0xFFFFFFF9] st_init = Some ([0x1000, 0x1010], st_e)
   \<and> path (tm_blockpool st_e) (tm_alloclist st_e) [1, 0] None
   \<and> map (\<lambda>i. blk_size (blk st_e i)) [1, 0] = [0xFFFFFFF9, 9]
   \<and> texmem_memused st_e = 2
   \<and> unat (texmem_memused st_e) = 2
   \<and> sum_list (map (\<lambda>i. unat (blk_size (blk st_e i))) [1, 0]) = 4294967298"
proof -
  have "run_calls [Alloc 9, Alloc 0xFFFFFFF9] st_init = Some ([0x1000, 0x1010], st_e)"
    by (simp add: step_a step_e)
  moreover have "path (tm_blockpool st_e) (tm_alloclist st_e) [1, 0] None"
    "map (\<lambda>i. blk_size (blk st_e i)) [1, 0] = [0xFFFFFFF9, 9]"
    "texmem_memused st_e = 2" "unat (texmem_memused st_e) = 2"
    "sum_list (map (\<lambda>i. unat (blk_size (blk st_e i))) [1, 0]) = 4294967298"
    by (simp_all add: st_e_def demo_state_def demo_pool_nth mk_blk_def texmem_memused_def)
  ultimately show ?thesis using step_init by simp
qed


end
